theory Spec2Isabelle
  imports Main
begin

section \<open>The storage service of \<open>vs/platform/storage/common/storage.ts\<close>\<close>

text \<open>
  The development embeds \<open>AbstractStorageService\<close> together with its in-memory
  implementation \<open>InMemoryStorageService\<close>. Methods are state transformers over the two
  caches of the service; they return their result (or the exception they raise), the events
  they fire, in order, and the caches they leave behind.
\<close>

subsection \<open>Enumerations, reserved keys and events\<close>

datatype StorageScope = GLOBAL | WORKSPACE

datatype StorageTarget = USER | MACHINE

datatype WillSaveStateReason = NONE | SHUTDOWN

text \<open>The numeric value of an enumeration member, as it is compared and persisted.\<close>

fun target_number :: "StorageTarget \<Rightarrow> int" where
  "target_number USER = 0"
| "target_number MACHINE = 1"

definition IS_NEW_KEY :: string where
  "IS_NEW_KEY = ''__$__isNewStorageMarker''"

definition TARGET_KEY :: string where
  "TARGET_KEY = ''__$__targetStorageMarker''"

text \<open>
  \<open>IStorageChangeEvent\<close>, \<open>IStorageTargetChangeEvent\<close> and \<open>IWillSaveStateEvent\<close>, tagged
  by the emitter that fires them.
\<close>

datatype event =
    StorageChange string StorageScope
  | TargetChange StorageScope
  | WillSaveState WillSaveStateReason

subsection \<open>JavaScript values that cross the interface\<close>

text \<open>
  Strings are sequences of code units; the embedding uses \<open>string\<close>, whose characters are
  the code units \<open>0\<close> to \<open>255\<close>. A number is an integer-valued double (\<open>Finite\<close>), \<open>NaN\<close>
  or an infinity. \<open>Finite i\<close> is the double of value \<open>i\<close> when \<open>safe_integer i\<close> holds;
  doubles with a fractional part have no representation in this type.
\<close>

datatype jsnumber = Finite int | NaN | PosInfinity | NegInfinity

datatype jsvalue =
    VString string
  | VBoolean bool
  | VNumber jsnumber
  | VUndefined
  | VNull

definition safe_integer :: "int \<Rightarrow> bool" where
  "safe_integer i = (\<bar>i\<bar> \<le> 2 ^ 53 - 1)"

text \<open>
  Modelled from the spec: \<open>isUndefinedOrNull\<close> of \<open>vs/base/common/types\<close>, whose code is
  not among the sources; it holds of the values \<open>undefined\<close> and \<open>null\<close>, for which
  \<open>store2\<close> removes the entry.
\<close>

fun isUndefinedOrNull :: "jsvalue \<Rightarrow> bool" where
  "isUndefinedOrNull VUndefined = True"
| "isUndefinedOrNull VNull = True"
| "isUndefinedOrNull _ = False"

subsection \<open>Decimal digits\<close>

definition is_digit :: "char \<Rightarrow> bool" where
  "is_digit c = (48 \<le> (of_char c :: nat) \<and> (of_char c :: nat) \<le> 57)"

definition digit_char :: "nat \<Rightarrow> char" where
  "digit_char d = char_of (48 + d)"

definition digit_value :: "char \<Rightarrow> nat" where
  "digit_value c = of_char c - 48"

function show_nat :: "nat \<Rightarrow> string" where
  "show_nat n = (if n < 10 then [digit_char n] else show_nat (n div 10) @ [digit_char (n mod 10)])"
  by pat_completeness auto
termination
  by (relation "measure (\<lambda>n. n)") auto

definition read_nat :: "string \<Rightarrow> nat" where
  "read_nat ds = foldl (\<lambda>acc c. acc * 10 + digit_value c) 0 ds"

definition show_int :: "int \<Rightarrow> string" where
  "show_int i = (if i < 0 then CHR ''-'' # show_nat (nat (- i)) else show_nat (nat i))"

subsection \<open>\<open>String(value)\<close> and \<open>parseInt(value, 10)\<close>\<close>

text \<open>\<open>Number::toString\<close> on the numbers of the embedding.\<close>

fun Number_toString :: "jsnumber \<Rightarrow> string" where
  "Number_toString (Finite i) = show_int i"
| "Number_toString NaN = ''NaN''"
| "Number_toString PosInfinity = ''Infinity''"
| "Number_toString NegInfinity = ''-Infinity''"

fun String :: "jsvalue \<Rightarrow> string" where
  "String (VString s) = s"
| "String (VBoolean b) = (if b then ''true'' else ''false'')"
| "String (VNumber n) = Number_toString n"
| "String VUndefined = ''undefined''"
| "String VNull = ''null''"

text \<open>
  The white space that \<open>parseInt\<close> skips: TAB, LF, VT, FF, CR, SP and NBSP are the members of
  \<open>StrWhiteSpaceChar\<close> among the code units of \<open>string\<close>.
\<close>

definition is_StrWhiteSpaceChar :: "char \<Rightarrow> bool" where
  "is_StrWhiteSpaceChar c = ((of_char c :: nat) \<in> {9, 10, 11, 12, 13, 32, 160})"

text \<open>
  \<open>parseInt(s, 10)\<close>: skip leading white space, read an optional sign, take the longest
  prefix of decimal digits; no digit gives \<open>NaN\<close>.
\<close>

definition parseInt :: "string \<Rightarrow> jsnumber" where
  "parseInt s =
     (let s1 = dropWhile is_StrWhiteSpaceChar s;
          sign = (case s1 of c # _ \<Rightarrow> if c = CHR ''-'' then (- 1 :: int) else 1 | [] \<Rightarrow> 1);
          s2 = (case s1 of c # r \<Rightarrow> if c = CHR ''-'' \<or> c = CHR ''+'' then r else s1 | [] \<Rightarrow> s1);
          z = takeWhile is_digit s2
      in if z = [] then NaN else Finite (sign * int (read_nat z)))"

subsection \<open>JSON values and the property order of objects\<close>

text \<open>
  The values \<open>JSON.parse\<close> returns. An object is the list of its own properties in the
  order \<open>Object.entries\<close> and \<open>JSON.stringify\<close> enumerate them: keys that are array
  indices first, in ascending numeric order, then the other keys in the order of their
  creation. Numbers are the integers \<open>i\<close> with \<open>safe_integer i\<close>.
\<close>

datatype json =
    JNull
  | JBool bool
  | JNumber int
  | JString string
  | JArray "json list"
  | JObject "(string \<times> json) list"

text \<open>
  An array index is a string of digits that is the canonical decimal form of a number below
  \<open>2^32 - 1\<close>.
\<close>

definition array_index :: "string \<Rightarrow> bool" where
  "array_index k =
     (if list_all is_digit k then show_nat (read_nat k) = k \<and> read_nat k < 2 ^ 32 - 1
      else False)"

fun insert_index :: "string \<Rightarrow> json \<Rightarrow> (string \<times> json) list \<Rightarrow> (string \<times> json) list" where
  "insert_index k v [] = [(k, v)]"
| "insert_index k v ((a, b) # ps) =
     (if array_index a \<and> read_nat a < read_nat k then (a, b) # insert_index k v ps
      else (k, v) # (a, b) # ps)"

fun update_own :: "string \<Rightarrow> json \<Rightarrow> (string \<times> json) list \<Rightarrow> (string \<times> json) list" where
  "update_own k v [] = []"
| "update_own k v ((a, b) # ps) = (if a = k then (a, v) # ps else (a, b) # update_own k v ps)"

text \<open>
  Creating or overwriting an own data property: an existing property keeps its place, a new
  array index joins the indices in order, any other new key goes last.
\<close>

definition define_property ::
  "(string \<times> json) list \<Rightarrow> string \<Rightarrow> json \<Rightarrow> (string \<times> json) list" where
  "define_property ps k v =
     (if map_of ps k \<noteq> None then update_own k v ps
      else if array_index k then insert_index k v ps
      else ps @ [(k, v)])"

definition delete_own :: "string \<Rightarrow> (string \<times> json) list \<Rightarrow> (string \<times> json) list" where
  "delete_own k ps = filter (\<lambda>p. fst p \<noteq> k) ps"

subsection \<open>\<open>JSON.stringify\<close>\<close>

definition hex_digit :: "nat \<Rightarrow> char" where
  "hex_digit d = (if d < 10 then char_of (48 + d) else char_of (87 + d))"

text \<open>
  \<open>QuoteJSONString\<close>: the quote, the backslash and the control characters are escaped,
  the five with a short form by it, the others as \<open>\u00XX\<close>.
\<close>

definition escape_char :: "char \<Rightarrow> string" where
  "escape_char c =
     (if c = CHR 0x08 then [CHR 0x5C, CHR ''b'']
      else if c = CHR 0x09 then [CHR 0x5C, CHR ''t'']
      else if c = CHR 0x0A then [CHR 0x5C, CHR ''n'']
      else if c = CHR 0x0C then [CHR 0x5C, CHR ''f'']
      else if c = CHR 0x0D then [CHR 0x5C, CHR ''r'']
      else if c = CHR 0x22 then [CHR 0x5C, CHR 0x22]
      else if c = CHR 0x5C then [CHR 0x5C, CHR 0x5C]
      else if (of_char c :: nat) < 32 then
        [CHR 0x5C, CHR ''u'', CHR ''0'', CHR ''0'',
         hex_digit (of_char c div 16), hex_digit (of_char c mod 16)]
      else [c])"

definition QuoteJSONString :: "string \<Rightarrow> string" where
  "QuoteJSONString s = CHR 0x22 # concat (map escape_char s) @ [CHR 0x22]"

fun join_commas :: "string list \<Rightarrow> string" where
  "join_commas [] = []"
| "join_commas [x] = x"
| "join_commas (x # y # ys) = x @ CHR '','' # join_commas (y # ys)"

fun JSON_stringify :: "json \<Rightarrow> string" where
  "JSON_stringify JNull = ''null''"
| "JSON_stringify (JBool b) = (if b then ''true'' else ''false'')"
| "JSON_stringify (JNumber n) = show_int n"
| "JSON_stringify (JString s) = QuoteJSONString s"
| "JSON_stringify (JArray xs) = CHR ''['' # join_commas (map JSON_stringify xs) @ '']''"
| "JSON_stringify (JObject ps) =
     CHR ''{'' #
     join_commas (map (\<lambda>p. QuoteJSONString (fst p) @ CHR '':'' # JSON_stringify (snd p)) ps) @
     ''}''"

subsection \<open>\<open>JSON.parse\<close>\<close>

text \<open>
  The outcome of parsing: the value, a \<open>SyntaxError\<close> for a text that is not JSON, or
  \<open>OutsideFragment\<close> for a JSON text with a literal that the embedding gives no value: a
  number with a fraction or an exponent or beyond the safe integers, and a string with a
  \<open>\uXXXX\<close> escape of a code unit above \<open>255\<close>. Such a literal is a token without a value;
  the lexers themselves yield \<open>Parsed\<close> or \<open>SyntaxError\<close> only.
\<close>

datatype 'a parsed = Parsed 'a | SyntaxError | OutsideFragment

datatype token =
    TLBrace | TRBrace | TLBracket | TRBracket | TColon | TComma
  | TString string | TNumber int | TTrue | TFalse | TNull
  | TStringOutside | TNumberOutside

definition is_json_ws :: "char \<Rightarrow> bool" where
  "is_json_ws c = ((of_char c :: nat) \<in> {9, 10, 13, 32})"

definition hex_value :: "char \<Rightarrow> nat option" where
  "hex_value c =
     (let n = (of_char c :: nat)
      in if 48 \<le> n \<and> n \<le> 57 then Some (n - 48)
         else if 97 \<le> n \<and> n \<le> 102 then Some (n - 87)
         else if 65 \<le> n \<and> n \<le> 70 then Some (n - 55)
         else None)"

definition unescape :: "char \<Rightarrow> char option" where
  "unescape e =
     (if e = CHR 0x22 then Some (CHR 0x22)
      else if e = CHR 0x5C then Some (CHR 0x5C)
      else if e = CHR ''/'' then Some (CHR ''/'')
      else if e = CHR ''b'' then Some (CHR 0x08)
      else if e = CHR ''f'' then Some (CHR 0x0C)
      else if e = CHR ''n'' then Some (CHR 0x0A)
      else if e = CHR ''r'' then Some (CHR 0x0D)
      else if e = CHR ''t'' then Some (CHR 0x09)
      else None)"

fun prepend ::
  "char option \<Rightarrow> (string option \<times> string) parsed \<Rightarrow> (string option \<times> string) parsed" where
  "prepend c (Parsed (s, rest)) =
     Parsed (case (c, s) of (Some c', Some s') \<Rightarrow> Some (c' # s') | _ \<Rightarrow> None, rest)"
| "prepend c SyntaxError = SyntaxError"
| "prepend c OutsideFragment = OutsideFragment"

definition hex4 :: "char \<Rightarrow> char \<Rightarrow> char \<Rightarrow> char \<Rightarrow> nat option" where
  "hex4 h1 h2 h3 h4 =
     (case (hex_value h1, hex_value h2, hex_value h3, hex_value h4) of
        (Some a, Some b, Some c, Some d) \<Rightarrow> Some (((a * 16 + b) * 16 + c) * 16 + d)
      | _ \<Rightarrow> None)"

text \<open>
  An escape sequence after its backslash: the character it denotes, or \<open>None\<close> for a code
  unit above \<open>255\<close>, and the text after it.
\<close>

fun lex_escape :: "string \<Rightarrow> (char option \<times> string) parsed" where
  "lex_escape [] = SyntaxError"
| "lex_escape (e # r) =
     (if e = CHR ''u'' then
        (case r of
           h1 # h2 # h3 # h4 # r' \<Rightarrow>
             (case hex4 h1 h2 h3 h4 of
                None \<Rightarrow> SyntaxError
              | Some n \<Rightarrow> Parsed (if n < 256 then Some (char_of n) else None, r'))
         | _ \<Rightarrow> SyntaxError)
      else
        (case unescape e of
           None \<Rightarrow> SyntaxError
         | Some ch \<Rightarrow> Parsed (Some ch, r)))"

text \<open>
  The characters of a string literal after its opening quote, up to the closing quote;
  the result is the string, or \<open>None\<close> when an escape in it denotes no character, and the
  text that follows the literal.
\<close>

function lex_string :: "string \<Rightarrow> (string option \<times> string) parsed" where
  "lex_string [] = SyntaxError"
| "lex_string (c # cs) =
     (if c = CHR 0x22 then Parsed (Some [], cs)
      else if c = CHR 0x5C then
        (case lex_escape cs of
           Parsed (ch, r) \<Rightarrow> prepend ch (lex_string r)
         | SyntaxError \<Rightarrow> SyntaxError
         | OutsideFragment \<Rightarrow> OutsideFragment)
      else if (of_char c :: nat) < 32 then SyntaxError
      else prepend (Some c) (lex_string cs))"
  by pat_completeness auto
termination
proof -
  have shorter: "length r < length cs" if "lex_escape cs = Parsed (ch, r)" for cs ch r
    using that by (cases cs) (auto split: if_splits list.splits option.splits)
  show ?thesis
  proof (relation "measure length", goal_cases)
    case 1
    show ?case by simp
  next
    case (2 c cs x ch r)
    then show ?case using shorter[of cs ch r] by simp
  next
    case (3 c cs)
    then show ?case by simp
  qed
qed

text \<open>
  A number literal: an optional minus sign, an integer part without a leading zero, an
  optional fraction and an optional exponent. A digit right after a leading zero ends the
  literal where no token may follow, so the text has no parse at all. The value is that of a
  literal made of the sign and the integer part alone, within the safe integers.
\<close>

definition lex_number :: "string \<Rightarrow> (int option \<times> string) parsed" where
  "lex_number cs =
     (let negative = (case cs of c # _ \<Rightarrow> c = CHR ''-'' | [] \<Rightarrow> False);
          r = (if negative then tl cs else cs);
          ds = takeWhile is_digit r;
          after_int = dropWhile is_digit r;
          frac = (case after_int of c # _ \<Rightarrow> c = CHR ''.'' | [] \<Rightarrow> False);
          fs = (if frac then takeWhile is_digit (tl after_int) else []);
          after_frac = (if frac then dropWhile is_digit (tl after_int) else after_int);
          exp = (case after_frac of c # _ \<Rightarrow> c = CHR ''e'' \<or> c = CHR ''E'' | [] \<Rightarrow> False);
          r2 = (if exp then tl after_frac else after_frac);
          signed = (case r2 of c # _ \<Rightarrow> exp \<and> (c = CHR ''+'' \<or> c = CHR ''-'') | [] \<Rightarrow> False);
          r3 = (if signed then tl r2 else r2);
          es = (if exp then takeWhile is_digit r3 else []);
          rest = (if exp then dropWhile is_digit r3 else after_frac)
      in if ds = [] then SyntaxError
         else if hd ds = CHR ''0'' \<and> length ds > 1 then SyntaxError
         else if frac \<and> fs = [] then SyntaxError
         else if exp \<and> es = [] then SyntaxError
         else if frac \<or> exp \<or> \<not> safe_integer (int (read_nat ds)) then Parsed (None, rest)
         else Parsed (Some (if negative then - int (read_nat ds) else int (read_nat ds)), rest))"

fun add_token :: "token \<Rightarrow> token list parsed \<Rightarrow> token list parsed" where
  "add_token t (Parsed ts) = Parsed (t # ts)"
| "add_token t SyntaxError = SyntaxError"
| "add_token t OutsideFragment = OutsideFragment"

function tokenize :: "string \<Rightarrow> token list parsed" where
  "tokenize [] = Parsed []"
| "tokenize (c # cs) =
     (if is_json_ws c then tokenize cs
      else if c = CHR ''{'' then add_token TLBrace (tokenize cs)
      else if c = CHR ''}'' then add_token TRBrace (tokenize cs)
      else if c = CHR ''['' then add_token TLBracket (tokenize cs)
      else if c = CHR '']'' then add_token TRBracket (tokenize cs)
      else if c = CHR '':'' then add_token TColon (tokenize cs)
      else if c = CHR '','' then add_token TComma (tokenize cs)
      else if c = CHR 0x22 then
        (case lex_string cs of
           Parsed (s, rest) \<Rightarrow>
             add_token (case s of Some k \<Rightarrow> TString k | None \<Rightarrow> TStringOutside) (tokenize rest)
         | SyntaxError \<Rightarrow> SyntaxError
         | OutsideFragment \<Rightarrow> OutsideFragment)
      else if c = CHR ''-'' \<or> is_digit c then
        (case lex_number (c # cs) of
           Parsed (n, rest) \<Rightarrow>
             add_token (case n of Some i \<Rightarrow> TNumber i | None \<Rightarrow> TNumberOutside) (tokenize rest)
         | SyntaxError \<Rightarrow> SyntaxError
         | OutsideFragment \<Rightarrow> OutsideFragment)
      else if c = CHR ''t'' \<and> take 3 cs = ''rue'' then add_token TTrue (tokenize (drop 3 cs))
      else if c = CHR ''f'' \<and> take 4 cs = ''alse'' then add_token TFalse (tokenize (drop 4 cs))
      else if c = CHR ''n'' \<and> take 3 cs = ''ull'' then add_token TNull (tokenize (drop 3 cs))
      else SyntaxError)"
  by pat_completeness auto
termination
proof -
  have prepend_Parsed: "prepend c r = Parsed (s, rest) \<Longrightarrow> \<exists>s'. r = Parsed (s', rest)"
    for c r s rest
    by (cases r) auto
  have escape_shorter: "length r < length cs" if "lex_escape cs = Parsed (ch, r)" for cs ch r
    using that by (cases cs) (auto split: if_splits list.splits option.splits)
  have string_shorter: "length rest < length cs" if "lex_string cs = Parsed (s, rest)" for cs s rest
    using that
  proof (induction cs arbitrary: s rest rule: lex_string.induct)
    case 1
    then show ?case by simp
  next
    case (2 c cs)
    consider (quote) "c = CHR 0x22" | (esc) "c \<noteq> CHR 0x22" "c = CHR 0x5C"
      | (other) "c \<noteq> CHR 0x22" "c \<noteq> CHR 0x5C"
      by blast
    then show ?case
    proof cases
      case quote
      with "2.prems" show ?thesis by simp
    next
      case esc
      with "2.prems" obtain ch r s' where e: "lex_escape cs = Parsed (ch, r)"
        and l: "lex_string r = Parsed (s', rest)"
        by (auto dest: prepend_Parsed split: parsed.splits)
      from "2.IH"(1)[OF esc(1) esc(2) e refl l] escape_shorter[OF e] show ?thesis by simp
    next
      case other
      with "2.prems" obtain s' where l: "lex_string cs = Parsed (s', rest)"
        and n: "\<not> (of_char c :: nat) < 32"
        by (auto dest: prepend_Parsed split: if_splits)
      from "2.IH"(2)[OF other(1) other(2) n l] show ?thesis by simp
    qed
  qed
  have number_shorter: "length rest < length cs" if a: "lex_number cs = Parsed (n, rest)"
    for cs n rest
  proof -
    define r where "r = (if (case cs of c # _ \<Rightarrow> c = CHR ''-'' | [] \<Rightarrow> False) then tl cs else cs)"
    define after_int where "after_int = dropWhile is_digit r"
    have drop_le: "length (dropWhile is_digit xs) \<le> length xs" for xs
      by (rule length_dropWhile_le)
    have tl_le: "length (tl xs) \<le> length xs" for xs :: string
      by simp
    from a have ne: "takeWhile is_digit r \<noteq> []"
      by (auto simp: lex_number_def Let_def r_def split: if_splits)
    have "length (takeWhile is_digit r) + length (dropWhile is_digit r) = length r"
      by (metis length_append takeWhile_dropWhile_id)
    with ne have lt: "length after_int < length r"
      by (cases "takeWhile is_digit r") (auto simp: after_int_def)
    have le: "length r \<le> length cs" by (auto simp: r_def)
    from a have "rest = after_int \<or> rest = dropWhile is_digit (tl after_int) \<or>
        (\<exists>ys. rest = dropWhile is_digit ys \<and>
           (ys = tl after_int \<or> ys = tl (tl after_int) \<or>
            ys = tl (dropWhile is_digit (tl after_int)) \<or>
            ys = tl (tl (dropWhile is_digit (tl after_int)))))"
      unfolding lex_number_def Let_def r_def[symmetric] after_int_def[symmetric]
      by (auto split: if_splits)
    then have "length rest \<le> length after_int"
    proof (elim disjE exE conjE)
      assume "rest = after_int"
      then show ?thesis by simp
    next
      assume "rest = dropWhile is_digit (tl after_int)"
      then show ?thesis using drop_le[of "tl after_int"] tl_le[of after_int] by simp
    next
      fix ys assume "rest = dropWhile is_digit ys" "ys = tl after_int"
      then show ?thesis using drop_le[of "tl after_int"] tl_le[of after_int] by simp
    next
      fix ys assume "rest = dropWhile is_digit ys" "ys = tl (tl after_int)"
      then show ?thesis
        using drop_le[of "tl (tl after_int)"] tl_le[of "tl after_int"] tl_le[of after_int] by simp
    next
      fix ys assume "rest = dropWhile is_digit ys" "ys = tl (dropWhile is_digit (tl after_int))"
      then show ?thesis
        using drop_le[of "tl (dropWhile is_digit (tl after_int))"]
          tl_le[of "dropWhile is_digit (tl after_int)"] drop_le[of "tl after_int"]
          tl_le[of after_int]
        by simp
    next
      fix ys assume "rest = dropWhile is_digit ys"
        "ys = tl (tl (dropWhile is_digit (tl after_int)))"
      then show ?thesis
        using drop_le[of "tl (tl (dropWhile is_digit (tl after_int)))"]
          tl_le[of "tl (dropWhile is_digit (tl after_int))"]
          tl_le[of "dropWhile is_digit (tl after_int)"] drop_le[of "tl after_int"]
          tl_le[of after_int]
        by simp
    qed
    with lt le show ?thesis by simp
  qed
  show ?thesis
  proof (relation "measure length", goal_cases)
    case 1
    show ?case by simp
  next
    case (2 c cs)
    then show ?case by simp
  next
    case (3 c cs)
    then show ?case by simp
  next
    case (4 c cs)
    then show ?case by simp
  next
    case (5 c cs)
    then show ?case by simp
  next
    case (6 c cs)
    then show ?case by simp
  next
    case (7 c cs)
    then show ?case by simp
  next
    case (8 c cs)
    then show ?case by simp
  next
    case (9 c cs x s rest)
    then show ?case using string_shorter[of cs s rest] by simp
  next
    case (10 c cs x n rest)
    then show ?case using number_shorter[of "c # cs" n rest] by simp
  next
    case (11 c cs)
    then show ?case by simp
  next
    case (12 c cs)
    then show ?case by simp
  next
    case (13 c cs)
    then show ?case by simp
  qed
qed

text \<open>
  The grammar is checked by a pushdown machine over the tokens. A frame is an open array
  with its elements so far, an open object with its members so far, or an open object whose
  next member has its key and waits for its value.
\<close>

datatype frame =
    ArrayFrame "json list"
  | ObjectFrame "(string \<times> json) list"
  | MemberFrame "(string \<times> json) list" string

datatype expect =
    ExpValue | ExpFirstElement | ExpFirstKey | ExpKey | ExpColon | ExpSeparator
  | Finished json

text \<open>A complete value goes to the innermost open container, or is the result.\<close>

fun deliver :: "json \<Rightarrow> frame list \<Rightarrow> (expect \<times> frame list) option" where
  "deliver v [] = Some (Finished v, [])"
| "deliver v (ArrayFrame xs # st) = Some (ExpSeparator, ArrayFrame (xs @ [v]) # st)"
| "deliver v (MemberFrame ps k # st) =
     Some (ExpSeparator, ObjectFrame (define_property ps k v) # st)"
| "deliver v (ObjectFrame ps # st) = None"

fun start_value :: "token \<Rightarrow> frame list \<Rightarrow> (expect \<times> frame list) option" where
  "start_value TLBrace st = Some (ExpFirstKey, ObjectFrame [] # st)"
| "start_value TLBracket st = Some (ExpFirstElement, ArrayFrame [] # st)"
| "start_value (TString s) st = deliver (JString s) st"
| "start_value (TNumber n) st = deliver (JNumber n) st"
| "start_value TTrue st = deliver (JBool True) st"
| "start_value TFalse st = deliver (JBool False) st"
| "start_value TNull st = deliver JNull st"
| "start_value TRBrace st = None"
| "start_value TRBracket st = None"
| "start_value TColon st = None"
| "start_value TComma st = None"
| "start_value TStringOutside st = None"
| "start_value TNumberOutside st = None"

definition step :: "expect \<Rightarrow> frame list \<Rightarrow> token \<Rightarrow> (expect \<times> frame list) option" where
  "step e st t =
     (case e of
        ExpValue \<Rightarrow> start_value t st
      | ExpFirstElement \<Rightarrow>
          (case st of
             ArrayFrame xs # st' \<Rightarrow> if t = TRBracket then deliver (JArray xs) st' else start_value t st
           | _ \<Rightarrow> None)
      | ExpFirstKey \<Rightarrow>
          (case st of
             ObjectFrame ps # st' \<Rightarrow>
               (case t of
                  TRBrace \<Rightarrow> deliver (JObject ps) st'
                | TString k \<Rightarrow> Some (ExpColon, MemberFrame ps k # st')
                | _ \<Rightarrow> None)
           | _ \<Rightarrow> None)
      | ExpKey \<Rightarrow>
          (case st of
             ObjectFrame ps # st' \<Rightarrow>
               (case t of
                  TString k \<Rightarrow> Some (ExpColon, MemberFrame ps k # st')
                | _ \<Rightarrow> None)
           | _ \<Rightarrow> None)
      | ExpColon \<Rightarrow> if t = TColon then Some (ExpValue, st) else None
      | ExpSeparator \<Rightarrow>
          (case st of
             ArrayFrame xs # st' \<Rightarrow>
               if t = TComma then Some (ExpValue, st)
               else if t = TRBracket then deliver (JArray xs) st'
               else None
           | ObjectFrame ps # st' \<Rightarrow>
               if t = TComma then Some (ExpKey, st)
               else if t = TRBrace then deliver (JObject ps) st'
               else None
           | _ \<Rightarrow> None)
      | Finished v \<Rightarrow> None)"

fun run :: "expect \<Rightarrow> frame list \<Rightarrow> token list \<Rightarrow> json parsed" where
  "run e st [] = (case e of Finished v \<Rightarrow> Parsed v | _ \<Rightarrow> SyntaxError)"
| "run e st (t # ts) =
     (case step e st t of
        None \<Rightarrow> SyntaxError
      | Some (e', st') \<Rightarrow> run e' st' ts)"

text \<open>
  A token without a value takes the place of a string or of a number in the grammar; the
  text is checked with a token that has a value in its place, and has a value itself when
  all its tokens have one.
\<close>

fun has_value :: "token \<Rightarrow> bool" where
  "has_value TStringOutside = False"
| "has_value TNumberOutside = False"
| "has_value _ = True"

fun in_place :: "token \<Rightarrow> token" where
  "in_place TStringOutside = TString []"
| "in_place TNumberOutside = TNumber 0"
| "in_place t = t"

definition JSON_parse :: "string \<Rightarrow> json parsed" where
  "JSON_parse raw =
     (case tokenize raw of
        Parsed ts \<Rightarrow>
          (case run ExpValue [] (map in_place ts) of
             Parsed v \<Rightarrow> if list_all has_value ts then Parsed v else OutsideFragment
           | SyntaxError \<Rightarrow> SyntaxError
           | OutsideFragment \<Rightarrow> OutsideFragment)
      | SyntaxError \<Rightarrow> SyntaxError
      | OutsideFragment \<Rightarrow> OutsideFragment)"

subsection \<open>Property access on the value that holds the key targets\<close>

text \<open>
  \<open>getKeyTargets\<close> returns what \<open>JSON.parse\<close> gave, an object of which inherits from
  \<open>Object.prototype\<close>, or the fresh \<open>Object.create(null)\<close>.
\<close>

datatype jsobject = FromJSON json | NullPrototype "(string \<times> json) list"

datatype error = TypeError | Unmodelled

text \<open>
  Reading \<open>keyTargets[key]\<close>. \<open>None\<close> stands for every value that is not an own property:
  \<open>undefined\<close>, and on a parsed object a member inherited from \<open>Object.prototype\<close>, which is a
  function or, for \<open>__proto__\<close>, the prototype itself; the callers only test the value against
  a number. Property access on \<open>null\<close> is a \<open>TypeError\<close>; arrays and primitive values as
  the receiver are left out.
\<close>

fun get_property :: "jsobject \<Rightarrow> string \<Rightarrow> error + json option" where
  "get_property (NullPrototype ps) k = Inr (map_of ps k)"
| "get_property (FromJSON (JObject ps)) k = Inr (map_of ps k)"
| "get_property (FromJSON JNull) k = Inl TypeError"
| "get_property (FromJSON _) k = Inl Unmodelled"

text \<open>
  Assigning \<open>keyTargets[key] = v\<close> for a number \<open>v\<close>. On a parsed object without an own
  property \<open>__proto__\<close> the assignment to that key reaches the setter of \<open>Object.prototype\<close>,
  which ignores a value that is neither an object nor \<open>null\<close>: the object stays as it is.
\<close>

fun set_property :: "jsobject \<Rightarrow> string \<Rightarrow> json \<Rightarrow> error + jsobject" where
  "set_property (NullPrototype ps) k v = Inr (NullPrototype (define_property ps k v))"
| "set_property (FromJSON (JObject ps)) k v =
     (if k = ''__proto__'' \<and> map_of ps k = None then Inr (FromJSON (JObject ps))
      else Inr (FromJSON (JObject (define_property ps k v))))"
| "set_property (FromJSON JNull) k v = Inl TypeError"
| "set_property (FromJSON _) k v = Inl Unmodelled"

fun delete_property :: "jsobject \<Rightarrow> string \<Rightarrow> error + jsobject" where
  "delete_property (NullPrototype ps) k = Inr (NullPrototype (delete_own k ps))"
| "delete_property (FromJSON (JObject ps)) k = Inr (FromJSON (JObject (delete_own k ps)))"
| "delete_property (FromJSON JNull) k = Inl TypeError"
| "delete_property (FromJSON _) k = Inl Unmodelled"

fun Object_entries :: "jsobject \<Rightarrow> error + (string \<times> json) list" where
  "Object_entries (NullPrototype ps) = Inr ps"
| "Object_entries (FromJSON (JObject ps)) = Inr ps"
| "Object_entries (FromJSON (JArray xs)) = Inr (zip (map show_nat [0..<length xs]) xs)"
| "Object_entries (FromJSON (JString s)) =
     Inr (zip (map show_nat [0..<length s]) (map (\<lambda>c. JString [c]) s))"
| "Object_entries (FromJSON (JBool b)) = Inr []"
| "Object_entries (FromJSON (JNumber n)) = Inr []"
| "Object_entries (FromJSON JNull) = Inl TypeError"

fun stringify_object :: "jsobject \<Rightarrow> string" where
  "stringify_object (NullPrototype ps) = JSON_stringify (JObject ps)"
| "stringify_object (FromJSON v) = JSON_stringify v"

text \<open>\<open>typeof x === 'number'\<close> on the result of a property read.\<close>

fun typeof_number :: "json option \<Rightarrow> bool" where
  "typeof_number (Some (JNumber n)) = True"
| "typeof_number _ = False"

subsection \<open>The service state and its methods\<close>

text \<open>\<open>globalCache\<close> and \<open>workspaceCache\<close> are the two \<open>Map<string, string>\<close> fields.\<close>

record InMemoryStorageService =
  globalCache :: "string \<rightharpoonup> string"
  workspaceCache :: "string \<rightharpoonup> string"

text \<open>
  A method returns its result or the exception that ends it: a \<open>TypeError\<close> of the runtime,
  or \<open>Unmodelled\<close> where it meets a value on which the embedding does not fix the
  runtime's behaviour.
\<close>

type_synonym 'a operation =
  "InMemoryStorageService \<Rightarrow> (error + 'a) \<times> event list \<times> InMemoryStorageService"

definition return :: "'a \<Rightarrow> 'a operation" where
  "return x = (\<lambda>s. (Inr x, [], s))"

definition throw :: "error \<Rightarrow> 'a operation" where
  "throw e = (\<lambda>s. (Inl e, [], s))"

text \<open>Sequencing: an exception ends the method, keeping the events and state so far.\<close>

definition bind :: "'a operation \<Rightarrow> ('a \<Rightarrow> 'b operation) \<Rightarrow> 'b operation" where
  "bind m f = (\<lambda>s. case m s of
       (Inl e, evs, s') \<Rightarrow> (Inl e, evs, s')
     | (Inr x, evs, s') \<Rightarrow> (case f x s' of (r, evs', s'') \<Rightarrow> (r, evs @ evs', s'')))"

definition lift :: "error + 'a \<Rightarrow> 'a operation" where
  "lift r = (\<lambda>s. (r, [], s))"

definition result_of :: "(error + 'a) \<times> event list \<times> InMemoryStorageService \<Rightarrow> error + 'a" where
  "result_of r = fst r"

definition events_of :: "(error + 'a) \<times> event list \<times> InMemoryStorageService \<Rightarrow> event list" where
  "events_of r = fst (snd r)"

definition state_of ::
  "(error + 'a) \<times> event list \<times> InMemoryStorageService \<Rightarrow> InMemoryStorageService" where
  "state_of r = snd (snd r)"

definition getCache :: "StorageScope \<Rightarrow> InMemoryStorageService \<Rightarrow> (string \<rightharpoonup> string)" where
  "getCache scope s = (if scope = GLOBAL then globalCache s else workspaceCache s)"

definition setCache ::
  "StorageScope \<Rightarrow> (string \<rightharpoonup> string) \<Rightarrow> InMemoryStorageService \<Rightarrow> InMemoryStorageService" where
  "setCache scope m s =
     (if scope = GLOBAL then s\<lparr>globalCache := m\<rparr> else s\<lparr>workspaceCache := m\<rparr>)"

text \<open>
  The typed getters. A fallback is optional (\<open>None\<close> is \<open>undefined\<close>), and so is the result.
  \<open>Map.get\<close> gives \<open>undefined\<close> for a missing key and never \<open>null\<close>.
\<close>

definition get :: "string \<Rightarrow> StorageScope \<Rightarrow> string option \<Rightarrow> string option operation" where
  "get key scope fallbackValue = (\<lambda>s.
     case getCache scope s key of
       None \<Rightarrow> return fallbackValue s
     | Some v \<Rightarrow> return (Some v) s)"

definition getBoolean :: "string \<Rightarrow> StorageScope \<Rightarrow> bool option \<Rightarrow> bool option operation" where
  "getBoolean key scope fallbackValue = (\<lambda>s.
     case getCache scope s key of
       None \<Rightarrow> return fallbackValue s
     | Some v \<Rightarrow> return (Some (v = ''true'')) s)"

definition getNumber ::
  "string \<Rightarrow> StorageScope \<Rightarrow> jsnumber option \<Rightarrow> jsnumber option operation" where
  "getNumber key scope fallbackValue = (\<lambda>s.
     case getCache scope s key of
       None \<Rightarrow> return fallbackValue s
     | Some v \<Rightarrow> return (Some (parseInt v)) s)"

text \<open>
  Modelled from the spec: the \<open>Emitter\<close> behind \<open>onDidChangeStorage\<close> and
  \<open>onDidChangeTarget\<close>, whose code is not among the sources; firing it delivers the event
  synchronously, within the same dispatch. Firing \<open>_onDidChangeStorage\<close> so yields the
  event and runs the listener that the constructor registers, which fires
  \<open>_onDidChangeTarget\<close> when the key is \<open>TARGET_KEY\<close>. Other subscribers of the two
  emitters only observe.
\<close>

definition fire_onDidChangeStorage :: "string \<Rightarrow> StorageScope \<Rightarrow> unit operation" where
  "fire_onDidChangeStorage key scope = (\<lambda>s.
     (Inr (),
      StorageChange key scope # (if key = TARGET_KEY then [TargetChange scope] else []),
      s))"

definition doStore :: "string \<Rightarrow> jsvalue \<Rightarrow> StorageScope \<Rightarrow> unit operation" where
  "doStore key v scope = (\<lambda>s.
     let valueStr = String v;
         currentValue = getCache scope s key
     in if currentValue = Some valueStr then return () s
        else fire_onDidChangeStorage key scope
               (setCache scope ((getCache scope s)(key \<mapsto> valueStr)) s))"

definition doRemove :: "string \<Rightarrow> StorageScope \<Rightarrow> unit operation" where
  "doRemove key scope = (\<lambda>s.
     let wasDeleted = (getCache scope s key \<noteq> None)
     in if \<not> wasDeleted then return () s
        else fire_onDidChangeStorage key scope
               (setCache scope ((getCache scope s)(key := None)) s))"

text \<open>\<open>isNew\<close> of the abstract class, which the in-memory service inherits.\<close>

definition isNew :: "StorageScope \<Rightarrow> bool operation" where
  "isNew scope = bind (getBoolean IS_NEW_KEY scope None) (\<lambda>b. return (b = Some True))"

text \<open>
  \<open>getKeyTargets\<close>: the text under \<open>TARGET_KEY\<close>, when it is there and not empty, is
  parsed; a \<open>SyntaxError\<close> is caught and leads to the empty object, as a missing text does.
\<close>

definition getKeyTargets :: "StorageScope \<Rightarrow> jsobject operation" where
  "getKeyTargets scope =
     bind (get TARGET_KEY scope None) (\<lambda>keysRaw.
       case keysRaw of
         None \<Rightarrow> return (NullPrototype [])
       | Some raw \<Rightarrow>
           if raw \<noteq> [] then
             (case JSON_parse raw of
                Parsed v \<Rightarrow> return (FromJSON v)
              | SyntaxError \<Rightarrow> return (NullPrototype [])
              | OutsideFragment \<Rightarrow> throw Unmodelled)
           else return (NullPrototype []))"

definition updateKeyTarget :: "string \<Rightarrow> StorageScope \<Rightarrow> StorageTarget option \<Rightarrow> unit operation" where
  "updateKeyTarget key scope target =
     bind (getKeyTargets scope) (\<lambda>keyTargets.
       case target of
         Some t \<Rightarrow>
           bind (lift (get_property keyTargets key)) (\<lambda>current.
             if current \<noteq> Some (JNumber (target_number t)) then
               bind (lift (set_property keyTargets key (JNumber (target_number t)))) (\<lambda>keyTargets'.
                 doStore TARGET_KEY (VString (stringify_object keyTargets')) scope)
             else return ())
       | None \<Rightarrow>
           bind (lift (get_property keyTargets key)) (\<lambda>current.
             if typeof_number current then
               bind (lift (delete_property keyTargets key)) (\<lambda>keyTargets'.
                 doStore TARGET_KEY (VString (stringify_object keyTargets')) scope)
             else return ()))"

definition remove :: "string \<Rightarrow> StorageScope \<Rightarrow> unit operation" where
  "remove key scope = bind (doRemove key scope) (\<lambda>_. updateKeyTarget key scope None)"

definition store2 :: "string \<Rightarrow> jsvalue \<Rightarrow> StorageScope \<Rightarrow> StorageTarget \<Rightarrow> unit operation" where
  "store2 key v scope target =
     (if isUndefinedOrNull v then remove key scope
      else bind (doStore key v scope) (\<lambda>_. updateKeyTarget key scope (Some target)))"

definition store :: "string \<Rightarrow> jsvalue \<Rightarrow> StorageScope \<Rightarrow> unit operation" where
  "store key v scope = store2 key v scope MACHINE"

text \<open>The loop of \<open>keys\<close> over the entries of the key targets.\<close>

fun collect_keys :: "StorageTarget \<Rightarrow> (string \<times> json) list \<Rightarrow> string list" where
  "collect_keys target [] = []"
| "collect_keys target ((key, keyTarget) # entries) =
     (if keyTarget = JNumber (target_number target) then key # collect_keys target entries
      else collect_keys target entries)"

definition keys :: "StorageScope \<Rightarrow> StorageTarget \<Rightarrow> string list operation" where
  "keys scope target =
     bind (getKeyTargets scope) (\<lambda>keyTargets.
       bind (lift (Object_entries keyTargets)) (\<lambda>entries.
         return (collect_keys target entries)))"

text \<open>
  The states of a running service: the empty caches of a new \<open>InMemoryStorageService\<close>, and
  what \<open>store2\<close> (so \<open>store\<close> too) and \<open>remove\<close> leave, where no call of \<open>store2\<close> has a key
  among \<open>avoided\<close>.
\<close>

definition initial :: InMemoryStorageService where
  "initial = \<lparr>globalCache = Map.empty, workspaceCache = Map.empty\<rparr>"

inductive reachable :: "string set \<Rightarrow> InMemoryStorageService \<Rightarrow> bool" for avoided where
  reachable_initial: "reachable avoided initial"
| reachable_store2:
    "reachable avoided s \<Longrightarrow> key \<notin> avoided \<Longrightarrow>
     reachable avoided (state_of (store2 key v scope target s))"
| reachable_remove:
    "reachable avoided s \<Longrightarrow> reachable avoided (state_of (remove key scope s))"



text \<open>
  \<open>flush\<close> of the abstract class, over the subscribers of \<open>onWillSaveState\<close> and the
  \<open>doFlush\<close> of the implementation. The in-memory \<open>doFlush\<close> and \<open>migrate\<close> are \<open>async\<close>
  functions with an empty body: they touch nothing and their promise is resolved.
\<close>

datatype promise = Resolved



definition migrate :: "'w \<Rightarrow> promise operation" where
  "migrate toWorkspace = return Resolved"

subsection \<open>Sequences of calls\<close>

datatype call =
    Store2 string jsvalue StorageScope StorageTarget
  | Store string jsvalue StorageScope
  | Remove string StorageScope

fun perform :: "call \<Rightarrow> unit operation" where
  "perform (Store2 key v scope target) = store2 key v scope target"
| "perform (Store key v scope) = store key v scope"
| "perform (Remove key scope) = remove key scope"

fun call_key :: "call \<Rightarrow> string" where
  "call_key (Store2 key v scope target) = key"
| "call_key (Store key v scope) = key"
| "call_key (Remove key scope) = key"

fun call_scope :: "call \<Rightarrow> StorageScope" where
  "call_scope (Store2 key v scope target) = scope"
| "call_scope (Store key v scope) = scope"
| "call_scope (Remove key scope) = scope"

fun perform_all :: "call list \<Rightarrow> InMemoryStorageService \<Rightarrow> InMemoryStorageService" where
  "perform_all [] s = s"
| "perform_all (c # cs) s = perform_all cs (state_of (perform c s))"

text \<open>
  A call keeps the target \<open>T\<close> of a key in a partition when it keeps off \<open>TARGET_KEY\<close>
  and, if it addresses that key in that partition, writes it again with the target \<open>T\<close>.
\<close>

fun keeps_target :: "string \<Rightarrow> StorageScope \<Rightarrow> StorageTarget \<Rightarrow> call \<Rightarrow> bool" where
  "keeps_target key scope T (Store2 k v sc t) =
     (k \<noteq> TARGET_KEY \<and> (k = key \<and> sc = scope \<longrightarrow> \<not> isUndefinedOrNull v \<and> t = T))"
| "keeps_target key scope T (Store k v sc) =
     (k \<noteq> TARGET_KEY \<and> (k = key \<and> sc = scope \<longrightarrow> \<not> isUndefinedOrNull v \<and> T = MACHINE))"
| "keeps_target key scope T (Remove k sc) =
     (k \<noteq> TARGET_KEY \<and> \<not> (k = key \<and> sc = scope))"

subsection \<open>The encoding of the key targets\<close>

text \<open>
  The order of the own property keys of an object: \<open>precedes a b\<close> when \<open>a\<close> is enumerated
  before \<open>b\<close> whatever the order of their creation, or when neither is an array index and
  the two differ.
\<close>

definition precedes :: "string \<Rightarrow> string \<Rightarrow> bool" where
  "precedes a b =
     (if array_index a then (array_index b \<longrightarrow> read_nat a < read_nat b)
      else \<not> array_index b \<and> a \<noteq> b)"

text \<open>
  A target map is the property list of an object that maps keys to the numbers of targets.
  A cache is well formed when the text under \<open>TARGET_KEY\<close>, if there is one, is what
  \<open>JSON.stringify\<close> wrote for a target map; \<open>recorded\<close> reads that map back.
\<close>

definition target_map :: "(string \<times> json) list \<Rightarrow> bool" where
  "target_map ps =
     (sorted_wrt precedes (map fst ps) \<and>
      (\<forall>p \<in> set ps. snd p = JNumber 0 \<or> snd p = JNumber 1))"

definition well_formed :: "StorageScope \<Rightarrow> InMemoryStorageService \<Rightarrow> bool" where
  "well_formed scope s =
     (case getCache scope s TARGET_KEY of
        None \<Rightarrow> True
      | Some raw \<Rightarrow> (\<exists>ps. target_map ps \<and> raw = JSON_stringify (JObject ps)))"

definition recorded :: "StorageScope \<Rightarrow> InMemoryStorageService \<Rightarrow> (string \<times> json) list" where
  "recorded scope s =
     (case getCache scope s TARGET_KEY of
        None \<Rightarrow> []
      | Some raw \<Rightarrow> (case JSON_parse raw of Parsed (JObject ps) \<Rightarrow> ps | _ \<Rightarrow> []))"

definition with_targets ::
  "StorageScope \<Rightarrow> (string \<times> json) list \<Rightarrow> InMemoryStorageService \<Rightarrow> InMemoryStorageService" where
  "with_targets scope ps s =
     setCache scope ((getCache scope s)(TARGET_KEY \<mapsto> JSON_stringify (JObject ps))) s"

text \<open>The tokens of the members of a target map, as \<open>JSON.stringify\<close> writes them.\<close>

fun member_tokens :: "(string \<times> json) list \<Rightarrow> token list" where
  "member_tokens [] = []"
| "member_tokens [p] =
     [TString (fst p), TColon, TNumber (case snd p of JNumber n \<Rightarrow> n | _ \<Rightarrow> 0)]"
| "member_tokens (p # q # ps) =
     [TString (fst p), TColon, TNumber (case snd p of JNumber n \<Rightarrow> n | _ \<Rightarrow> 0), TComma]
     @ member_tokens (q # ps)"

declare show_nat.simps [simp del]

section \<open>Properties\<close>

subsection \<open>Decimal numerals\<close>

lemma digit_value_digit_char: "d < 10 \<Longrightarrow> digit_value (digit_char d) = d"
  by (simp add: digit_value_def digit_char_def)

lemma is_digit_digit_char: "d < 10 \<Longrightarrow> is_digit (digit_char d)"
  by (simp add: is_digit_def digit_char_def)

lemma read_nat_snoc: "read_nat (ds @ [c]) = read_nat ds * 10 + digit_value c"
  by (simp add: read_nat_def)

lemma read_show_nat: "read_nat (show_nat n) = n"
proof (induction n rule: show_nat.induct)
  case (1 n)
  show ?case
  proof (cases "n < 10")
    case True
    then show ?thesis
      by (simp add: show_nat.simps[of n] read_nat_def digit_value_digit_char)
  next
    case False
    with 1 show ?thesis
      by (simp add: show_nat.simps[of n] read_nat_snoc digit_value_digit_char)
  qed
qed

lemma show_nat_digits: "list_all is_digit (show_nat n)"
proof (induction n rule: show_nat.induct)
  case (1 n)
  show ?case
  proof (cases "n < 10")
    case True
    then show ?thesis by (simp add: show_nat.simps[of n] is_digit_digit_char)
  next
    case False
    with 1 show ?thesis by (simp add: show_nat.simps[of n] is_digit_digit_char)
  qed
qed

lemma show_nat_not_Nil: "show_nat n \<noteq> []"
  by (subst show_nat.simps) simp

lemma takeWhile_all: "\<forall>x\<in>set xs. P x \<Longrightarrow> takeWhile P xs = xs"
  by (induction xs) auto

lemma digit_not_space: "is_digit c \<Longrightarrow> \<not> is_StrWhiteSpaceChar c"
  by (auto simp: is_digit_def is_StrWhiteSpaceChar_def)

lemma digit_not_sign: "is_digit c \<Longrightarrow> c \<noteq> CHR ''-'' \<and> c \<noteq> CHR ''+''"
  by (auto simp: is_digit_def)

lemma parseInt_digits:
  assumes "ds \<noteq> []" and "\<forall>x\<in>set ds. is_digit x"
  shows "parseInt ds = Finite (int (read_nat ds))"
proof -
  from assms obtain c cs where s: "ds = c # cs" and c: "is_digit c"
    by (cases ds) auto
  have tw: "takeWhile is_digit cs = cs"
    using assms(2) by (intro takeWhile_all) (simp add: s)
  have dw: "dropWhile is_StrWhiteSpaceChar ds = ds"
    using digit_not_space[OF c] by (simp add: s)
  show ?thesis
    unfolding parseInt_def Let_def dw
    using digit_not_sign[OF c] c by (simp add: s tw)
qed

lemma parseInt_minus_digits:
  assumes "ds \<noteq> []" and "\<forall>x\<in>set ds. is_digit x"
  shows "parseInt (CHR ''-'' # ds) = Finite (- int (read_nat ds))"
proof -
  have tw: "takeWhile is_digit ds = ds" using assms(2) by (rule takeWhile_all)
  have dw: "dropWhile is_StrWhiteSpaceChar (CHR ''-'' # ds) = CHR ''-'' # ds"
    by (simp add: is_StrWhiteSpaceChar_def)
  show ?thesis
    unfolding parseInt_def Let_def dw
    using assms(1) by (simp add: tw)
qed

lemma show_nat_all_digits: "\<forall>x\<in>set (show_nat n). is_digit x"
  using show_nat_digits[of n] by (simp add: list_all_iff)

lemma parseInt_show_int: "parseInt (show_int i) = Finite i"
  by (simp add: show_int_def parseInt_digits parseInt_minus_digits show_nat_not_Nil
      show_nat_all_digits read_show_nat)

subsection \<open>String literals\<close>

lemma hex_value_hex_digit: "d < 16 \<Longrightarrow> hex_value (hex_digit d) = Some d"
  by (auto simp: hex_value_def hex_digit_def Let_def)

lemma lex_string_escape_char:
  "lex_string (escape_char c @ tl0) = prepend (Some c) (lex_string tl0)"
proof -
  consider (short) "c \<in> {CHR 0x08, CHR 0x09, CHR 0x0A, CHR 0x0C, CHR 0x0D, CHR 0x22, CHR 0x5C}"
    | (control) "c \<notin> {CHR 0x08, CHR 0x09, CHR 0x0A, CHR 0x0C, CHR 0x0D, CHR 0x22, CHR 0x5C}"
        "(of_char c :: nat) < 32"
    | (plain) "c \<notin> {CHR 0x08, CHR 0x09, CHR 0x0A, CHR 0x0C, CHR 0x0D, CHR 0x22, CHR 0x5C}"
        "\<not> (of_char c :: nat) < 32"
    by blast
  then show ?thesis
  proof cases
    case short
    then show ?thesis
      by (auto simp: escape_char_def unescape_def split: parsed.splits)
  next
    case control
    have d1: "(of_char c :: nat) div 16 < 16" and d2: "(of_char c :: nat) mod 16 < 16"
      using control(2) by auto
    have h: "hex4 (CHR ''0'') (CHR ''0'') (hex_digit (of_char c div 16)) (hex_digit (of_char c mod 16))
        = Some (of_char c)"
      by (simp add: hex4_def hex_value_hex_digit[OF d1] hex_value_hex_digit[OF d2])
         (simp add: hex_value_def)
    have lt: "(of_char c :: nat) < 256" using control(2) by simp
    from control show ?thesis
      by (simp add: escape_char_def h lt split: parsed.splits prod.splits)
  next
    case plain
    then show ?thesis by (simp add: escape_char_def)
  qed
qed

lemma lex_string_escaped:
  "lex_string (concat (map escape_char k) @ CHR 0x22 # rest) = Parsed (Some k, rest)"
  by (induction k) (simp_all add: lex_string_escape_char)

subsection \<open>The order of properties\<close>

lemma precedes_neq: "precedes a b \<Longrightarrow> a \<noteq> b"
  by (auto simp: precedes_def split: if_splits)

lemma precedes_trans:
  "array_index a \<Longrightarrow> precedes a b \<Longrightarrow> precedes b c \<Longrightarrow> precedes a c"
  by (auto simp: precedes_def split: if_splits)

lemma array_index_inj: "array_index a \<Longrightarrow> array_index b \<Longrightarrow> read_nat a = read_nat b \<Longrightarrow> a = b"
  by (metis array_index_def)

lemma sorted_precedes_distinct: "sorted_wrt precedes ks \<Longrightarrow> distinct ks"
  by (induction ks) (auto dest: precedes_neq)

lemma fst_update_own: "map fst (update_own k v ps) = map fst ps"
  by (induction ps) auto

lemma map_of_update_own:
  "map_of ps k \<noteq> None \<Longrightarrow> map_of (update_own k v ps) = (map_of ps)(k \<mapsto> v)"
  by (induction ps) (auto simp: fun_upd_twist)

lemma set_insert_index: "set (insert_index k v ps) = insert (k, v) (set ps)"
  by (induction ps) (auto split: if_splits)

lemma sorted_insert_index:
  assumes "sorted_wrt precedes (map fst ps)" "array_index k" "k \<notin> fst ` set ps"
  shows "sorted_wrt precedes (map fst (insert_index k v ps))"
  using assms
proof (induction ps)
  case Nil
  then show ?case by simp
next
  case (Cons p ps)
  obtain a b where p: "p = (a, b)" by (cases p)
  show ?case
  proof (cases "array_index a \<and> read_nat a < read_nat k")
    case True
    then have "precedes a k" using Cons.prems(2) by (simp add: precedes_def)
    with True Cons show ?thesis
      by (auto simp: p set_insert_index)
  next
    case False
    have "a \<noteq> k" using Cons.prems(3) by (auto simp: p)
    have ka: "precedes k a"
    proof (cases "array_index a")
      case True
      with False have "\<not> read_nat a < read_nat k" by simp
      moreover have "read_nat a \<noteq> read_nat k"
        using array_index_inj[OF True Cons.prems(2)] \<open>a \<noteq> k\<close> by blast
      ultimately have "read_nat k < read_nat a" by linarith
      then show ?thesis using True Cons.prems(2) by (simp add: precedes_def)
    next
      case False
      then show ?thesis using Cons.prems(2) by (simp add: precedes_def)
    qed
    have "\<forall>x \<in> set (map fst ps). precedes k x"
      using Cons.prems(1) ka precedes_trans[OF Cons.prems(2) ka] by (auto simp: p)
    with False ka Cons.prems(1) show ?thesis by (auto simp: p)
  qed
qed

lemma map_of_insert_index:
  "k \<notin> fst ` set ps \<Longrightarrow> map_of (insert_index k v ps) = (map_of ps)(k \<mapsto> v)"
  by (induction ps) (auto simp: fun_upd_twist)

lemma map_of_None_iff: "map_of ps k = None \<longleftrightarrow> k \<notin> fst ` set ps"
  by (simp add: map_of_eq_None_iff)

lemma map_add_fresh: "m k = None \<Longrightarrow> [k \<mapsto> v] ++ m = m(k \<mapsto> v)"
  by (auto simp: map_add_def fun_eq_iff split: option.splits)

lemma map_of_define_property: "map_of (define_property ps k v) = (map_of ps)(k \<mapsto> v)"
proof (cases "map_of ps k = None")
  case True
  then show ?thesis
    by (simp add: define_property_def map_of_insert_index map_of_None_iff[symmetric] map_add_fresh)
next
  case False
  then show ?thesis by (simp add: define_property_def map_of_update_own)
qed

lemma sorted_define_property:
  assumes "sorted_wrt precedes (map fst ps)"
  shows "sorted_wrt precedes (map fst (define_property ps k v))"
proof (cases "map_of ps k = None")
  case False
  then show ?thesis using assms by (simp add: define_property_def fst_update_own)
next
  case True
  then have nk: "k \<notin> fst ` set ps" by (simp add: map_of_None_iff)
  show ?thesis
  proof (cases "array_index k")
    case True
    then show ?thesis
      using sorted_insert_index[OF assms True nk] \<open>map_of ps k = None\<close>
      by (simp add: define_property_def)
  next
    case False
    have "\<forall>x \<in> set (map fst ps). precedes x k"
    proof
      fix x assume x: "x \<in> set (map fst ps)"
      with nk have "x \<noteq> k" by auto
      moreover have "\<not> array_index x \<or> array_index x" by simp
      ultimately show "precedes x k" using False by (auto simp: precedes_def)
    qed
    then show ?thesis
      using assms False \<open>map_of ps k = None\<close>
      by (simp add: define_property_def sorted_wrt_append)
  qed
qed

lemma set_define_property_values:
  "set (define_property ps k v) \<subseteq> insert (k, v) (set ps)"
proof -
  have "set (update_own k v ps) \<subseteq> insert (k, v) (set ps)"
    by (induction ps) (auto split: if_splits)
  then show ?thesis by (auto simp: define_property_def set_insert_index)
qed

lemma target_map_define_property:
  "target_map ps \<Longrightarrow> target_map (define_property ps k (JNumber (target_number t)))"
  unfolding target_map_def
  using set_define_property_values[of ps k "JNumber (target_number t)"]
  by (cases t) (auto intro: sorted_define_property)

lemma fst_delete_own: "map fst (delete_own k ps) = filter (\<lambda>a. a \<noteq> k) (map fst ps)"
  unfolding delete_own_def by (induction ps) auto

lemma target_map_delete_own: "target_map ps \<Longrightarrow> target_map (delete_own k ps)"
  unfolding target_map_def
  by (auto simp: fst_delete_own sorted_wrt_filter) (auto simp: delete_own_def)

lemma map_of_delete_own: "map_of (delete_own k ps) = (map_of ps)(k := None)"
  unfolding delete_own_def by (induction ps) auto

lemma insert_index_last:
  "\<forall>x \<in> fst ` set ps. array_index x \<and> read_nat x < read_nat k \<Longrightarrow>
   insert_index k v ps = ps @ [(k, v)]"
  by (induction ps) auto

lemma define_property_last:
  assumes "sorted_wrt precedes (map fst (ps @ [(k, v)]))"
  shows "define_property ps k v = ps @ [(k, v)]"
proof -
  from assms have pre: "\<forall>x \<in> fst ` set ps. precedes x k"
    by (auto simp: sorted_wrt_append)
  then have nk: "map_of ps k = None"
    by (auto simp: map_of_None_iff dest: precedes_neq)
  show ?thesis
  proof (cases "array_index k")
    case True
    with pre have "\<forall>x \<in> fst ` set ps. array_index x \<and> read_nat x < read_nat k"
      by (auto simp: precedes_def split: if_splits)
    then show ?thesis using True nk by (simp add: define_property_def insert_index_last)
  next
    case False
    then show ?thesis using nk by (simp add: define_property_def)
  qed
qed

lemma rebuild_properties:
  "sorted_wrt precedes (map fst (acc @ ps)) \<Longrightarrow>
   foldl (\<lambda>a p. define_property a (fst p) (snd p)) acc ps = acc @ ps"
proof (induction ps arbitrary: acc)
  case Nil
  then show ?case by simp
next
  case (Cons p ps)
  have s: "sorted_wrt precedes (map fst (acc @ [(fst p, snd p)]))"
    using Cons.prems by (auto simp: sorted_wrt_append)
  have "define_property acc (fst p) (snd p) = acc @ [p]"
    using define_property_last[OF s] by simp
  then show ?case using Cons.IH[of "acc @ [p]"] Cons.prems by simp
qed

subsection \<open>Parsing what \<open>JSON.stringify\<close> wrote for a target map\<close>

lemma show_int_0: "show_int 0 = ''0''"
  by code_simp

lemma show_int_1: "show_int 1 = ''1''"
  by code_simp

lemma lex_number_0:
  "c = CHR '','' \<or> c = CHR ''}'' \<Longrightarrow> lex_number (CHR ''0'' # c # rest) = Parsed (Some 0, c # rest)"
  by (auto simp: is_digit_def lex_number_def Let_def safe_integer_def read_nat_def digit_value_def)

lemma lex_number_1:
  "c = CHR '','' \<or> c = CHR ''}'' \<Longrightarrow> lex_number (CHR ''1'' # c # rest) = Parsed (Some 1, c # rest)"
  by (auto simp: is_digit_def lex_number_def Let_def safe_integer_def read_nat_def digit_value_def)

lemma tokenize_punctuation:
  "tokenize (CHR ''{'' # cs) = add_token TLBrace (tokenize cs)"
  "tokenize (CHR ''}'' # cs) = add_token TRBrace (tokenize cs)"
  "tokenize (CHR '':'' # cs) = add_token TColon (tokenize cs)"
  "tokenize (CHR '','' # cs) = add_token TComma (tokenize cs)"
  by (simp_all add: is_json_ws_def)

lemma tokenize_quoted:
  "tokenize (QuoteJSONString k @ rest) = add_token (TString k) (tokenize rest)"
  by (simp add: QuoteJSONString_def lex_string_escaped is_json_ws_def)

lemma tokenize_target_number:
  assumes "n = 0 \<or> n = 1" and "c = CHR '','' \<or> c = CHR ''}''"
  shows "tokenize (show_int n @ c # rest) = add_token (TNumber n) (tokenize (c # rest))"
proof -
  have d: "is_digit (CHR ''0'')" "is_digit (CHR ''1'')"
    "\<not> is_json_ws (CHR ''0'')" "\<not> is_json_ws (CHR ''1'')"
    by (simp_all add: is_digit_def is_json_ws_def)
  from assms(1) show ?thesis
  proof
    assume "n = 0"
    then show ?thesis using lex_number_0[OF assms(2), of rest] d
      by (simp add: show_int_0 del: tokenize.simps add: tokenize.simps(2)[of "CHR ''0''"])
  next
    assume "n = 1"
    then show ?thesis using lex_number_1[OF assms(2), of rest] d
      by (simp add: show_int_1 del: tokenize.simps add: tokenize.simps(2)[of "CHR ''1''"])
  qed
qed

declare tokenize.simps(2) [simp del]

lemma tokenize_member:
  assumes "snd p = JNumber 0 \<or> snd p = JNumber 1" and "c = CHR '','' \<or> c = CHR ''}''"
  shows "tokenize ((QuoteJSONString (fst p) @ CHR '':'' # JSON_stringify (snd p)) @ c # rest) =
         add_token (TString (fst p)) (add_token TColon
           (add_token (TNumber (case snd p of JNumber n \<Rightarrow> n | _ \<Rightarrow> 0)) (tokenize (c # rest))))"
proof -
  obtain n where n: "snd p = JNumber n" "n = 0 \<or> n = 1" using assms(1) by auto
  have "tokenize (CHR '':'' # show_int n @ c # rest) =
        add_token TColon (add_token (TNumber n) (tokenize (c # rest)))"
    using tokenize_target_number[OF n(2) assms(2)] by (simp add: tokenize_punctuation)
  then show ?thesis
    using tokenize_quoted[of "fst p" "CHR '':'' # show_int n @ c # rest"] by (simp add: n(1))
qed

lemma foldr_add_token_Parsed: "foldr add_token ts (Parsed ts') = Parsed (ts @ ts')"
  by (induction ts) auto

lemma tokenize_members:
  assumes "\<forall>p \<in> set ps. snd p = JNumber 0 \<or> snd p = JNumber 1" and "ps \<noteq> []"
  shows "tokenize (join_commas (map (\<lambda>p. QuoteJSONString (fst p) @ CHR '':'' # JSON_stringify (snd p)) ps)
           @ ''}'') = Parsed (member_tokens ps @ [TRBrace])"
  using assms
proof (induction ps rule: member_tokens.induct)
  case 1
  then show ?case by simp
next
  case (2 p)
  then have v: "snd p = JNumber 0 \<or> snd p = JNumber 1" by simp
  have "tokenize ''}'' = Parsed [TRBrace]" by (simp add: tokenize_punctuation)
  then show ?case
    using tokenize_member[OF v, of "CHR ''}''" "[]"] by simp
next
  case (3 p q ps)
  then have v: "snd p = JNumber 0 \<or> snd p = JNumber 1" by simp
  have IH: "tokenize (join_commas (map (\<lambda>p. QuoteJSONString (fst p) @ CHR '':'' # JSON_stringify (snd p)) (q # ps))
           @ ''}'') = Parsed (member_tokens (q # ps) @ [TRBrace])"
    using 3 by simp
  have c: "tokenize (CHR '','' # join_commas (map (\<lambda>p. QuoteJSONString (fst p) @ CHR '':'' # JSON_stringify (snd p)) (q # ps))
           @ ''}'') = Parsed (TComma # member_tokens (q # ps) @ [TRBrace])"
    using IH by (simp add: tokenize_punctuation)
  show ?case
    using tokenize_member[OF v, of "CHR '',''"
        "join_commas (map (\<lambda>p. QuoteJSONString (fst p) @ CHR '':'' # JSON_stringify (snd p)) (q # ps)) @ ''}''"] c
    by simp
qed

lemma run_members:
  assumes "\<forall>p \<in> set ps. snd p = JNumber 0 \<or> snd p = JNumber 1" and "ps \<noteq> []"
    and "e = ExpFirstKey \<or> e = ExpKey"
  shows "run e [ObjectFrame acc] (member_tokens ps @ [TRBrace]) =
         Parsed (JObject (foldl (\<lambda>a p. define_property a (fst p) (snd p)) acc ps))"
  using assms
proof (induction ps arbitrary: acc e rule: member_tokens.induct)
  case 1
  then show ?case by simp
next
  case (2 p)
  then obtain n where n: "snd p = JNumber n" by auto
  from 2(3) show ?case by (elim disjE) (simp_all add: step_def n)
next
  case (3 p q ps)
  then obtain n where n: "snd p = JNumber n" by auto
  have IH: "run ExpKey [ObjectFrame (define_property acc (fst p) (snd p))] (member_tokens (q # ps) @ [TRBrace]) =
         Parsed (JObject (foldl (\<lambda>a p. define_property a (fst p) (snd p)) (define_property acc (fst p) (snd p)) (q # ps)))"
    using 3 by simp
  from 3(4) show ?case using IH by (elim disjE) (simp_all add: step_def n)
qed

lemma member_tokens_in_place: "map in_place (member_tokens ps) = member_tokens ps"
  by (induction ps rule: member_tokens.induct) simp_all

lemma member_tokens_has_value: "list_all has_value (member_tokens ps)"
  by (induction ps rule: member_tokens.induct) simp_all

lemma JSON_roundtrip:
  assumes "target_map ps"
  shows "JSON_parse (JSON_stringify (JObject ps)) = Parsed (JObject ps)"
proof (cases "ps = []")
  case True
  then show ?thesis by (simp add: JSON_parse_def tokenize_punctuation step_def)
next
  case False
  let ?ts = "TLBrace # member_tokens ps @ [TRBrace]"
  from assms have v: "\<forall>p \<in> set ps. snd p = JNumber 0 \<or> snd p = JNumber 1"
    and s: "sorted_wrt precedes (map fst ([] @ ps))"
    by (simp_all add: target_map_def)
  have tok: "tokenize (JSON_stringify (JObject ps)) = Parsed ?ts"
    using tokenize_members[OF v False] by (simp add: tokenize_punctuation)
  have same: "map in_place ?ts = ?ts"
    by (simp add: member_tokens_in_place)
  have valued: "list_all has_value ?ts"
    using member_tokens_has_value[of ps] by simp
  have "run ExpValue [] ?ts = run ExpFirstKey [ObjectFrame []] (member_tokens ps @ [TRBrace])"
    by (simp add: step_def)
  then have run: "run ExpValue [] ?ts = Parsed (JObject ps)"
    using run_members[OF v False, of ExpFirstKey "[]"] rebuild_properties[OF s] by simp
  show ?thesis
    unfolding JSON_parse_def tok
    by (simp only: same run valued parsed.case if_True)
qed

lemma JSON_stringify_object_not_Nil: "JSON_stringify (JObject ps) \<noteq> []"
  by simp

lemma JSON_stringify_inj:
  "target_map ps \<Longrightarrow> target_map qs \<Longrightarrow>
   JSON_stringify (JObject ps) = JSON_stringify (JObject qs) \<Longrightarrow> ps = qs"
  using JSON_roundtrip[of ps] JSON_roundtrip[of qs] by simp

subsection \<open>Methods on well-formed caches\<close>

declare JSON_stringify.simps(6) [simp del]

lemma getCache_setCache:
  "getCache sc (setCache sc' m s) = (if sc = sc' then m else getCache sc s)"
  by (cases sc; cases sc') (simp_all add: getCache_def setCache_def)

lemma setCache_same: "setCache scope (getCache scope s) s = s"
  by (simp add: getCache_def setCache_def)

lemma doStore_eq:
  "doStore key v scope s =
     (Inr (),
      (if getCache scope s key = Some (String v) then []
       else StorageChange key scope # (if key = TARGET_KEY then [TargetChange scope] else [])),
      setCache scope ((getCache scope s)(key \<mapsto> String v)) s)"
proof (cases "getCache scope s key = Some (String v)")
  case True
  then have "(getCache scope s)(key \<mapsto> String v) = getCache scope s" by (rule fun_upd_idem)
  with True show ?thesis by (simp add: doStore_def Let_def return_def setCache_same)
next
  case False
  then show ?thesis by (simp add: doStore_def Let_def fire_onDidChangeStorage_def)
qed

lemma doRemove_eq:
  "doRemove key scope s =
     (Inr (),
      (if getCache scope s key = None then []
       else StorageChange key scope # (if key = TARGET_KEY then [TargetChange scope] else [])),
      setCache scope ((getCache scope s)(key := None)) s)"
proof (cases "getCache scope s key = None")
  case True
  then have "(getCache scope s)(key := None) = getCache scope s" by (rule fun_upd_idem)
  with True show ?thesis by (simp add: doRemove_def Let_def return_def setCache_same)
next
  case False
  then show ?thesis by (auto simp: doRemove_def Let_def fire_onDidChangeStorage_def)
qed

lemma bind_eq:
  "bind m f s =
     (case result_of (m s) of
        Inl e \<Rightarrow> (Inl e, events_of (m s), state_of (m s))
      | Inr x \<Rightarrow> (result_of (f x (state_of (m s))),
                  events_of (m s) @ events_of (f x (state_of (m s))),
                  state_of (f x (state_of (m s)))))"
  by (auto simp: bind_def result_of_def events_of_def state_of_def split: prod.splits sum.splits)

lemma projections [simp]:
  "result_of (r, evs, s) = r" "events_of (r, evs, s) = evs" "state_of (r, evs, s) = s"
  by (simp_all add: result_of_def events_of_def state_of_def)

lemma get_eq:
  "get key scope fb s = (Inr (case getCache scope s key of None \<Rightarrow> fb | Some v \<Rightarrow> Some v), [], s)"
  by (simp add: get_def return_def split: option.splits)

lemma recorded_wf:
  assumes "well_formed scope s"
  shows "target_map (recorded scope s)"
    and "getCache scope s TARGET_KEY = Some raw \<Longrightarrow>
         raw = JSON_stringify (JObject (recorded scope s))"
    and "getCache scope s TARGET_KEY = Some raw \<Longrightarrow>
         JSON_parse raw = Parsed (JObject (recorded scope s))"
proof -
  show "target_map (recorded scope s)"
    using assms
    by (auto simp: well_formed_def recorded_def JSON_roundtrip split: option.splits)
       (simp add: target_map_def)
  assume t: "getCache scope s TARGET_KEY = Some raw"
  with assms obtain ps where ps: "target_map ps" "raw = JSON_stringify (JObject ps)"
    by (auto simp: well_formed_def)
  then have r: "recorded scope s = ps" using t by (simp add: recorded_def JSON_roundtrip)
  show "raw = JSON_stringify (JObject (recorded scope s))" using r ps by simp
  show "JSON_parse raw = Parsed (JObject (recorded scope s))"
    using r ps by (simp add: JSON_roundtrip)
qed

lemma getKeyTargets_wf:
  assumes "well_formed scope s"
  shows "getKeyTargets scope s =
     (Inr (case getCache scope s TARGET_KEY of
             None \<Rightarrow> NullPrototype []
           | Some raw \<Rightarrow> FromJSON (JObject (recorded scope s))), [], s)"
proof (cases "getCache scope s TARGET_KEY")
  case None
  then show ?thesis by (simp add: getKeyTargets_def bind_eq get_eq return_def)
next
  case (Some raw)
  have ne: "raw \<noteq> []"
    using recorded_wf(2)[OF assms Some] JSON_stringify_object_not_Nil by simp
  show ?thesis
    using Some ne recorded_wf(3)[OF assms Some]
    by (simp add: getKeyTargets_def bind_eq get_eq return_def)
qed

lemma well_formed_with_targets:
  assumes "target_map ps"
  shows "well_formed scope (with_targets scope ps s)"
    and "recorded scope (with_targets scope ps s) = ps"
    and "getCache scope (with_targets scope ps s) TARGET_KEY = Some (JSON_stringify (JObject ps))"
  using assms
  by (auto simp: well_formed_def recorded_def with_targets_def getCache_setCache JSON_roundtrip)

lemma with_targets_other:
  "k \<noteq> TARGET_KEY \<or> sc \<noteq> scope \<Longrightarrow>
   getCache sc (with_targets scope ps s) k = getCache sc s k"
  by (auto simp: with_targets_def getCache_setCache)

lemma target_map_values:
  "target_map ps \<Longrightarrow> map_of ps k = Some v \<Longrightarrow> v = JNumber 0 \<or> v = JNumber 1"
  by (fastforce simp: target_map_def dest: map_of_SomeD)

lemma text_changes:
  assumes "target_map ps" "target_map qs" "map_of ps k \<noteq> map_of qs k"
  shows "JSON_stringify (JObject ps) \<noteq> JSON_stringify (JObject qs)"
  using assms JSON_stringify_inj[of ps qs] by auto

lemma updateKeyTarget_add_wf:
  assumes "well_formed scope s"
  shows "updateKeyTarget key scope (Some t) s =
     (if map_of (recorded scope s) key = Some (JNumber (target_number t)) \<or>
         (key = ''__proto__'' \<and> getCache scope s TARGET_KEY \<noteq> None \<and>
          map_of (recorded scope s) key = None)
      then (Inr (), [], s)
      else (Inr (), [StorageChange TARGET_KEY scope, TargetChange scope],
            with_targets scope
              (define_property (recorded scope s) key (JNumber (target_number t))) s))"
proof -
  let ?ps = "recorded scope s"
  let ?qs = "define_property ?ps key (JNumber (target_number t))"
  have tm: "target_map ?ps" by (rule recorded_wf(1)[OF assms])
  have tq: "target_map ?qs" by (rule target_map_define_property[OF tm])
  show ?thesis
  proof (cases "getCache scope s TARGET_KEY")
    case None
    then have r: "?ps = []" by (simp add: recorded_def)
    show ?thesis
      using None r
      by (simp add: updateKeyTarget_def bind_eq getKeyTargets_wf[OF assms] lift_def
          doStore_eq with_targets_def)
  next
    case (Some raw)
    have raw: "raw = JSON_stringify (JObject ?ps)" by (rule recorded_wf(2)[OF assms Some])
    show ?thesis
    proof (cases "map_of ?ps key = Some (JNumber (target_number t))")
      case True
      then show ?thesis
        using Some
        by (simp add: updateKeyTarget_def bind_eq getKeyTargets_wf[OF assms] lift_def return_def)
    next
      case False
      show ?thesis
      proof (cases "key = ''__proto__'' \<and> map_of ?ps key = None")
        case True
        from True have k: "key = ''__proto__''" and m: "map_of ?ps key = None"
          by blast+
        have sp: "set_property (FromJSON (JObject ?ps)) key (JNumber (target_number t)) =
            Inr (FromJSON (JObject ?ps))"
          using k m by simp
        have same: "(getCache scope s)(TARGET_KEY \<mapsto> raw) = getCache scope s"
          using Some by (rule fun_upd_idem)
        have "updateKeyTarget key scope (Some t) s = (Inr (), [], s)"
          using Some False raw[symmetric] same
          by (simp add: updateKeyTarget_def bind_eq getKeyTargets_wf[OF assms] lift_def
              doStore_eq setCache_same sp del: set_property.simps)
        then show ?thesis using k m Some by simp
      next
        case np: False
        have "map_of ?ps key \<noteq> map_of ?qs key"
          using False by (simp add: map_of_define_property)
        then have "raw \<noteq> JSON_stringify (JObject ?qs)"
          using text_changes[OF tm tq] raw by simp
        then show ?thesis
          using Some False np
          by (auto simp: updateKeyTarget_def bind_eq getKeyTargets_wf[OF assms] lift_def
              doStore_eq with_targets_def)
      qed
    qed
  qed
qed

lemma updateKeyTarget_remove_wf:
  assumes "well_formed scope s"
  shows "updateKeyTarget key scope None s =
     (if map_of (recorded scope s) key = None then (Inr (), [], s)
      else (Inr (), [StorageChange TARGET_KEY scope, TargetChange scope],
            with_targets scope (delete_own key (recorded scope s)) s))"
proof -
  let ?ps = "recorded scope s"
  let ?qs = "delete_own key ?ps"
  have tm: "target_map ?ps" by (rule recorded_wf(1)[OF assms])
  have tq: "target_map ?qs" by (rule target_map_delete_own[OF tm])
  show ?thesis
  proof (cases "getCache scope s TARGET_KEY")
    case None
    then have r: "?ps = []" by (simp add: recorded_def)
    show ?thesis
      using None r
      by (simp add: updateKeyTarget_def bind_eq getKeyTargets_wf[OF assms] lift_def return_def)
  next
    case (Some raw)
    have raw: "raw = JSON_stringify (JObject ?ps)" by (rule recorded_wf(2)[OF assms Some])
    show ?thesis
    proof (cases "map_of ?ps key")
      case None
      then show ?thesis
        using Some
        by (simp add: updateKeyTarget_def bind_eq getKeyTargets_wf[OF assms] lift_def return_def)
    next
      case (Some v)
      then obtain n where n: "v = JNumber n" using target_map_values[OF tm Some] by auto
      have "map_of ?ps key \<noteq> map_of ?qs key"
        using Some by (simp add: map_of_delete_own)
      then have "raw \<noteq> JSON_stringify (JObject ?qs)"
        using text_changes[OF tm tq] raw by simp
      then show ?thesis
        using Some n \<open>getCache scope s TARGET_KEY = Some raw\<close>
        by (simp add: updateKeyTarget_def bind_eq getKeyTargets_wf[OF assms] lift_def
            doStore_eq with_targets_def)
    qed
  qed
qed

subsection \<open>Frames and the invariant\<close>

lemma getKeyTargets_frame:
  "state_of (getKeyTargets scope s) = s" "events_of (getKeyTargets scope s) = []"
  by (auto simp: getKeyTargets_def bind_eq get_eq return_def throw_def
      split: option.splits parsed.splits)

lemma updateKeyTarget_state:
  "state_of (updateKeyTarget key scope target s) = s \<or>
   (\<exists>raw. state_of (updateKeyTarget key scope target s) =
      setCache scope ((getCache scope s)(TARGET_KEY \<mapsto> raw)) s)"
  by (auto simp: updateKeyTarget_def bind_eq getKeyTargets_frame lift_def doStore_eq return_def
      split: sum.splits option.splits)

lemma updateKeyTarget_frame:
  assumes "k \<noteq> TARGET_KEY"
  shows "getCache sc (state_of (updateKeyTarget key scope target s)) k = getCache sc s k"
  using updateKeyTarget_state[of key scope target s] assms
  by (auto simp: getCache_setCache)

lemma remove_frame:
  assumes "k \<noteq> TARGET_KEY" "k \<noteq> key \<or> sc \<noteq> scope"
  shows "getCache sc (state_of (remove key scope s)) k = getCache sc s k"
  using assms
  by (auto simp: remove_def bind_eq doRemove_eq updateKeyTarget_frame getCache_setCache)

lemma store2_frame:
  assumes "k \<noteq> TARGET_KEY" "k \<noteq> key \<or> sc \<noteq> scope"
  shows "getCache sc (state_of (store2 key v scope target s)) k = getCache sc s k"
  using assms
  by (auto simp: store2_def remove_frame bind_eq doStore_eq updateKeyTarget_frame getCache_setCache)

lemma store2_stores:
  assumes "key \<noteq> TARGET_KEY" "\<not> isUndefinedOrNull v"
  shows "getCache scope (state_of (store2 key v scope target s)) key = Some (String v)"
  using assms
  by (simp add: store2_def bind_eq doStore_eq updateKeyTarget_frame getCache_setCache)

lemma remove_removes:
  "getCache scope (state_of (remove key scope s)) key = None"
proof (cases "key = TARGET_KEY")
  case False
  then show ?thesis
    by (simp add: remove_def bind_eq doRemove_eq updateKeyTarget_frame getCache_setCache)
next
  case True
  let ?s1 = "setCache scope ((getCache scope s)(TARGET_KEY := None)) s"
  have n: "getCache scope ?s1 TARGET_KEY = None" by (simp add: getCache_setCache)
  then have w: "well_formed scope ?s1" by (simp add: well_formed_def)
  have r: "recorded scope ?s1 = []" using n by (simp add: recorded_def)
  show ?thesis
    using True n
    by (simp add: remove_def bind_eq doRemove_eq updateKeyTarget_remove_wf[OF w] r)
qed

subsection \<open>Well-formedness is invariant\<close>

lemma well_formed_put:
  assumes "k \<noteq> TARGET_KEY \<or> sc \<noteq> scope"
  shows "well_formed sc (setCache scope ((getCache scope s)(k := x)) s) = well_formed sc s"
    and "recorded sc (setCache scope ((getCache scope s)(k := x)) s) = recorded sc s"
  using assms by (auto simp: well_formed_def recorded_def getCache_setCache)

lemma well_formed_with_targets_other:
  assumes "sc \<noteq> scope"
  shows "well_formed sc (with_targets scope ps s) = well_formed sc s"
    and "recorded sc (with_targets scope ps s) = recorded sc s"
  using assms by (auto simp: well_formed_def recorded_def with_targets_def getCache_setCache)

lemma updateKeyTarget_wf:
  assumes "well_formed scope s" "well_formed sc s"
  shows "well_formed sc (state_of (updateKeyTarget key scope target s))"
proof (cases target)
  case None
  then show ?thesis
    using assms target_map_delete_own[OF recorded_wf(1)[OF assms(1)], of key]
    by (cases "sc = scope")
       (auto simp: updateKeyTarget_remove_wf[OF assms(1)] well_formed_with_targets
         well_formed_with_targets_other)
next
  case (Some t)
  then show ?thesis
    using assms target_map_define_property[OF recorded_wf(1)[OF assms(1)], of key t]
    by (cases "sc = scope")
       (auto simp: updateKeyTarget_add_wf[OF assms(1)] well_formed_with_targets
         well_formed_with_targets_other)
qed

lemma remove_wf:
  assumes "\<And>sc. well_formed sc s"
  shows "well_formed sc (state_of (remove key scope s))"
proof -
  let ?s1 = "setCache scope ((getCache scope s)(key := None)) s"
  have w1: "well_formed sc' ?s1" for sc'
  proof (cases "key \<noteq> TARGET_KEY \<or> sc' \<noteq> scope")
    case True
    then show ?thesis using assms[of sc'] by (simp add: well_formed_put)
  next
    case False
    then show ?thesis by (simp add: well_formed_def getCache_setCache)
  qed
  show ?thesis
    using updateKeyTarget_wf[OF w1 w1, where key=key and target=None]
    by (simp add: remove_def bind_eq doRemove_eq)
qed

lemma store2_wf:
  assumes "\<And>sc. well_formed sc s" "key \<noteq> TARGET_KEY"
  shows "well_formed sc (state_of (store2 key v scope target s))"
proof (cases "isUndefinedOrNull v")
  case True
  then show ?thesis using remove_wf[OF assms(1)] by (simp add: store2_def)
next
  case False
  let ?s1 = "setCache scope ((getCache scope s)(key \<mapsto> String v)) s"
  have w1: "well_formed sc' ?s1" for sc'
    using assms(1)[of sc'] assms(2) by (simp add: well_formed_put)
  show ?thesis
    using False updateKeyTarget_wf[OF w1 w1, where key=key and target="Some target"]
    by (simp add: store2_def bind_eq doStore_eq)
qed

lemma initial_wf: "well_formed sc initial"
  by (simp add: well_formed_def initial_def getCache_def)

lemma reachable_wf: "reachable {TARGET_KEY} s \<Longrightarrow> well_formed sc s"
proof (induction arbitrary: sc rule: reachable.induct)
  case reachable_initial
  show ?case by (rule initial_wf)
next
  case (reachable_store2 s key v scope target)
  then show ?case using store2_wf[of s key] by simp
next
  case (reachable_remove s key scope)
  then show ?case using remove_wf[of s] by simp
qed

lemma updateKeyTarget_returns:
  "well_formed scope s \<Longrightarrow> result_of (updateKeyTarget key scope target s) = Inr ()"
  by (cases target) (simp_all add: updateKeyTarget_add_wf updateKeyTarget_remove_wf)

lemma store2_returns:
  assumes "well_formed scope s" "key \<noteq> TARGET_KEY" "\<not> isUndefinedOrNull v"
  shows "result_of (store2 key v scope target s) = Inr ()"
proof -
  let ?s1 = "setCache scope ((getCache scope s)(key \<mapsto> String v)) s"
  have w1: "well_formed scope ?s1"
    using assms(1,2) by (simp add: well_formed_put)
  show ?thesis
    using assms(3) updateKeyTarget_returns[OF w1]
    by (simp add: store2_def bind_eq doStore_eq)
qed


lemma triple_eq: "r = (result_of r, events_of r, state_of r)"
  by (simp add: result_of_def events_of_def state_of_def)

lemma getBoolean_eq:
  "getBoolean key scope fb s =
     (Inr (case getCache scope s key of None \<Rightarrow> fb | Some v \<Rightarrow> Some (v = ''true'')), [], s)"
  by (simp add: getBoolean_def return_def split: option.splits)

lemma getNumber_eq:
  "getNumber key scope fb s =
     (Inr (case getCache scope s key of None \<Rightarrow> fb | Some v \<Rightarrow> Some (parseInt v)), [], s)"
  by (simp add: getNumber_def return_def split: option.splits)

text \<open>
  C1 (as amended). In a state the service reaches through calls that keep off the reserved
  key \<open>TARGET_KEY\<close>, and for a key other than \<open>TARGET_KEY\<close>, \<open>store2\<close> of a string, of a
  boolean or of a number that is a safe integer returns normally, and the matching getter then
  returns the value stored, whatever its fallback.
\<close>

theorem store2_then_typed_getter:
  assumes "reachable {TARGET_KEY} s" and "key \<noteq> TARGET_KEY"
  shows "(\<exists>evs s'. store2 key (VString str) scope target s = (Inr (), evs, s') \<and>
            get key scope fb s' = (Inr (Some str), [], s')) \<and>
         (\<exists>evs s'. store2 key (VBoolean b) scope target s = (Inr (), evs, s') \<and>
            getBoolean key scope fbb s' = (Inr (Some b), [], s')) \<and>
         (safe_integer i \<longrightarrow>
           (\<exists>evs s'. store2 key (VNumber (Finite i)) scope target s = (Inr (), evs, s') \<and>
              getNumber key scope fbn s' = (Inr (Some (Finite i)), [], s')))"
proof -
  have w: "well_formed scope s" by (rule reachable_wf[OF assms(1)])
  have *: "\<exists>evs s'. store2 key v scope target s = (Inr (), evs, s') \<and>
      getCache scope s' key = Some (String v)" if "\<not> isUndefinedOrNull v" for v
    using store2_returns[OF w assms(2) that, of target] store2_stores[OF assms(2) that, of scope target s]
      triple_eq[of "store2 key v scope target s"]
    by metis
  have "\<exists>evs s'. store2 key (VString str) scope target s = (Inr (), evs, s') \<and>
            get key scope fb s' = (Inr (Some str), [], s')"
    using *[of "VString str"] by (auto simp: get_eq)
  moreover have "\<exists>evs s'. store2 key (VBoolean b) scope target s = (Inr (), evs, s') \<and>
            getBoolean key scope fbb s' = (Inr (Some b), [], s')"
    using *[of "VBoolean b"] by (auto simp: getBoolean_eq)
  moreover have "\<exists>evs s'. store2 key (VNumber (Finite i)) scope target s = (Inr (), evs, s') \<and>
              getNumber key scope fbn s' = (Inr (Some (Finite i)), [], s')"
    using *[of "VNumber (Finite i)"] by (auto simp: getNumber_eq parseInt_show_int)
  ultimately show ?thesis by blast
qed

theorem store2_then_typed_getter_witness:
  "result_of (getNumber ''fontSize'' WORKSPACE (Some (Finite 0))
     (state_of (store2 ''fontSize'' (VNumber (Finite 14)) WORKSPACE USER initial)))
   = Inr (Some (Finite 14))"
proof -
  have k: "''fontSize'' \<noteq> TARGET_KEY" by (simp add: TARGET_KEY_def)
  have i: "safe_integer 14" by (simp add: safe_integer_def)
  show ?thesis
    using store2_then_typed_getter[OF reachable_initial k, of "''x''" WORKSPACE USER None True None
        14 "Some (Finite 0)"] i
    by auto
qed

theorem store2_then_typed_getter_counterexample:
  "result_of (get TARGET_KEY GLOBAL None
     (state_of (store2 TARGET_KEY (VString ''abc'') GLOBAL USER initial)))
     = Inr (Some ''{\"__$__targetStorageMarker\":0}'')
   \<and> result_of (getNumber ''n'' GLOBAL None
     (state_of (store2 ''n'' (VNumber PosInfinity) GLOBAL USER initial)))
     = Inr (Some NaN)"
  by code_simp

subsection \<open>The claims about reads, removal and the reserved keys\<close>

lemma keys_wf:
  assumes "well_formed scope s"
  shows "keys scope t s = (Inr (collect_keys t (recorded scope s)), [], s)"
proof (cases "getCache scope s TARGET_KEY")
  case None
  then have "recorded scope s = []" by (simp add: recorded_def)
  with None show ?thesis
    by (simp add: keys_def bind_eq getKeyTargets_wf[OF assms] lift_def return_def)
next
  case (Some raw)
  then show ?thesis
    by (simp add: keys_def bind_eq getKeyTargets_wf[OF assms] lift_def return_def)
qed

lemma in_collect_keys:
  assumes "target_map ps"
  shows "k \<in> set (collect_keys t ps) \<longleftrightarrow> map_of ps k = Some (JNumber (target_number t))"
proof -
  have d: "distinct (map fst ps)"
    using assms by (simp add: target_map_def sorted_precedes_distinct)
  have "k \<in> set (collect_keys t ps) \<longleftrightarrow> (k, JNumber (target_number t)) \<in> set ps"
    by (induction ps) (auto split: if_splits)
  then show ?thesis using d by simp
qed



text \<open>
  C10. The reading methods \<open>get\<close>, \<open>getBoolean\<close>, \<open>getNumber\<close>, \<open>keys\<close> and \<open>isNew\<close> leave
  both caches as they were, reserved entries included, and fire no event, in every state and
  also when \<open>keys\<close> ends with an exception.
\<close>

theorem reading_methods_are_pure:
  "state_of (get key scope fb s) = s \<and> events_of (get key scope fb s) = [] \<and>
   state_of (getBoolean key scope fbb s) = s \<and> events_of (getBoolean key scope fbb s) = [] \<and>
   state_of (getNumber key scope fbn s) = s \<and> events_of (getNumber key scope fbn s) = [] \<and>
   state_of (keys scope target s) = s \<and> events_of (keys scope target s) = [] \<and>
   state_of (isNew scope s) = s \<and> events_of (isNew scope s) = []"
proof -
  have "state_of (keys scope target s) = s \<and> events_of (keys scope target s) = []"
    by (auto simp: keys_def bind_eq getKeyTargets_frame lift_def return_def split: sum.splits)
  moreover have "state_of (isNew scope s) = s \<and> events_of (isNew scope s) = []"
    by (simp add: isNew_def bind_eq getBoolean_eq return_def)
  ultimately show ?thesis by (simp add: get_eq getBoolean_eq getNumber_eq)
qed

lemma IS_NEW_KEY_not_TARGET_KEY: "IS_NEW_KEY \<noteq> TARGET_KEY"
  by (simp add: IS_NEW_KEY_def TARGET_KEY_def)

lemma reachable_not_marked: "reachable {IS_NEW_KEY} s \<Longrightarrow> getCache sc s IS_NEW_KEY = None"
proof (induction arbitrary: sc rule: reachable.induct)
  case reachable_initial
  show ?case by (simp add: initial_def getCache_def)
next
  case (reachable_store2 s key v scope target)
  then show ?case
    using store2_frame[OF IS_NEW_KEY_not_TARGET_KEY, of key sc scope v target s] by auto
next
  case (reachable_remove s key scope)
  show ?case
  proof (cases "IS_NEW_KEY \<noteq> key \<or> sc \<noteq> scope")
    case True
    then show ?thesis
      using remove_frame[OF IS_NEW_KEY_not_TARGET_KEY True, of s] reachable_remove.IH by simp
  next
    case False
    then show ?thesis using remove_removes[of scope key s] by simp
  qed
qed

text \<open>
  C9 (as amended). In the state of a new in-memory service and in every state it reaches
  through \<open>store2\<close>, \<open>store\<close> and \<open>remove\<close> calls none of which stores under \<open>IS_NEW_KEY\<close>,
  \<open>isNew\<close> returns \<open>false\<close> for either partition; \<open>migrate\<close> resolves and changes nothing.
\<close>

theorem isNew_false_unless_marked:
  assumes "reachable {IS_NEW_KEY} s"
  shows "isNew scope s = (Inr False, [], s) \<and> migrate toWorkspace s = (Inr Resolved, [], s)"
  using reachable_not_marked[OF assms, of scope]
  by (simp add: isNew_def bind_eq getBoolean_eq return_def migrate_def)

theorem isNew_false_unless_marked_witness:
  "result_of (isNew GLOBAL (state_of (store2 ''flag'' (VBoolean True) GLOBAL MACHINE initial)))
   = Inr False"
proof -
  have "''flag'' \<notin> {IS_NEW_KEY}" by (simp add: IS_NEW_KEY_def)
  from reachable_store2[OF reachable_initial this]
  have "reachable {IS_NEW_KEY} (state_of (store2 ''flag'' (VBoolean True) GLOBAL MACHINE initial))" .
  from isNew_false_unless_marked[OF this, of GLOBAL "()"]
  have "isNew GLOBAL (state_of (store2 ''flag'' (VBoolean True) GLOBAL MACHINE initial)) =
      (Inr False, [], state_of (store2 ''flag'' (VBoolean True) GLOBAL MACHINE initial))"
    by (rule conjunct1)
  then show ?thesis by (simp only: projections)
qed

theorem isNew_false_unless_marked_counterexample:
  "result_of (isNew GLOBAL (state_of (store2 IS_NEW_KEY (VBoolean True) GLOBAL MACHINE initial)))
   = Inr True"
  by code_simp

text \<open>
  C5. When the text under \<open>TARGET_KEY\<close> of a partition is not valid JSON, \<open>keys\<close> returns
  the empty sequence for both targets, and \<open>get\<close>, \<open>getBoolean\<close> and \<open>getNumber\<close> on any
  other key return what they return when the text under \<open>TARGET_KEY\<close> is replaced by any
  text or is missing.
\<close>

theorem malformed_target_map_fails_open:
  assumes "getCache scope s TARGET_KEY = Some raw" and "JSON_parse raw = SyntaxError"
    and "key \<noteq> TARGET_KEY"
  shows "keys scope USER s = (Inr [], [], s) \<and> keys scope MACHINE s = (Inr [], [], s) \<and>
     result_of (get key scope fb s) =
       result_of (get key scope fb (setCache scope ((getCache scope s)(TARGET_KEY := other)) s)) \<and>
     result_of (getBoolean key scope fbb s) =
       result_of (getBoolean key scope fbb (setCache scope ((getCache scope s)(TARGET_KEY := other)) s)) \<and>
     result_of (getNumber key scope fbn s) =
       result_of (getNumber key scope fbn (setCache scope ((getCache scope s)(TARGET_KEY := other)) s))"
proof -
  have "getKeyTargets scope s = (Inr (NullPrototype []), [], s)"
    using assms(1,2) by (simp add: getKeyTargets_def bind_eq get_eq return_def)
  then have "keys scope t s = (Inr [], [], s)" for t
    by (simp add: keys_def bind_eq lift_def return_def)
  then show ?thesis
    using assms(3) by (simp add: get_eq getBoolean_eq getNumber_eq getCache_setCache)
qed

theorem malformed_target_map_fails_open_witness:
  "result_of (keys GLOBAL USER
     (state_of (doStore TARGET_KEY (VString ''{broken'') GLOBAL
       (state_of (store2 ''a'' (VString ''x'') GLOBAL USER initial))))) = Inr [] \<and>
   result_of (get ''a'' GLOBAL None
     (state_of (doStore TARGET_KEY (VString ''{broken'') GLOBAL
       (state_of (store2 ''a'' (VString ''x'') GLOBAL USER initial))))) = Inr (Some ''x'')"
proof -
  let ?s = "state_of (doStore TARGET_KEY (VString ''{broken'') GLOBAL
       (state_of (store2 ''a'' (VString ''x'') GLOBAL USER initial)))"
  have a: "getCache GLOBAL ?s TARGET_KEY = Some ''{broken''" by code_simp
  have b: "JSON_parse ''{broken'' = SyntaxError" by code_simp
  have c: "''a'' \<noteq> TARGET_KEY" by (simp add: TARGET_KEY_def)
  have d: "result_of (get ''a'' GLOBAL None (setCache GLOBAL ((getCache GLOBAL ?s)(TARGET_KEY := None)) ?s))
      = Inr (Some ''x'')"
    by code_simp
  from malformed_target_map_fails_open[OF a b c, of None None None None] d
  show ?thesis by simp
qed



subsection \<open>Writing the same value twice\<close>

lemma updateKeyTarget_events:
  assumes "well_formed scope s"
  shows "events_of (updateKeyTarget key scope target s) = [] \<or>
         events_of (updateKeyTarget key scope target s) =
           [StorageChange TARGET_KEY scope, TargetChange scope]"
  by (cases target)
     (simp_all add: updateKeyTarget_add_wf[OF assms] updateKeyTarget_remove_wf[OF assms])

lemma updateKeyTarget_recorded:
  assumes "well_formed scope s" and "key \<noteq> ''__proto__''"
  shows "map_of (recorded scope (state_of (updateKeyTarget key scope (Some t) s))) key =
         Some (JNumber (target_number t))"
  using assms(2) target_map_define_property[OF recorded_wf(1)[OF assms(1)], of key t]
  by (simp add: updateKeyTarget_add_wf[OF assms(1)] well_formed_with_targets(2)
      map_of_define_property)

lemma updateKeyTarget_idem:
  assumes "well_formed scope s"
  shows "updateKeyTarget key scope (Some t) (state_of (updateKeyTarget key scope (Some t) s)) =
         (Inr (), [], state_of (updateKeyTarget key scope (Some t) s))"
proof -
  let ?ps = "recorded scope s"
  let ?qs = "define_property ?ps key (JNumber (target_number t))"
  let ?noop = "map_of ?ps key = Some (JNumber (target_number t)) \<or>
         (key = ''__proto__'' \<and> getCache scope s TARGET_KEY \<noteq> None \<and> map_of ?ps key = None)"
  have tq: "target_map ?qs"
    by (rule target_map_define_property[OF recorded_wf(1)[OF assms]])
  show ?thesis
  proof (cases ?noop)
    case True
    then have "state_of (updateKeyTarget key scope (Some t) s) = s"
      by (simp add: updateKeyTarget_add_wf[OF assms])
    then show ?thesis using True by (simp add: updateKeyTarget_add_wf[OF assms])
  next
    case False
    then have s': "state_of (updateKeyTarget key scope (Some t) s) = with_targets scope ?qs s"
      by (auto simp: updateKeyTarget_add_wf[OF assms])
    have w': "well_formed scope (with_targets scope ?qs s)"
      by (rule well_formed_with_targets(1)[OF tq])
    show ?thesis
      unfolding s' updateKeyTarget_add_wf[OF w']
      by (simp add: well_formed_with_targets(2)[OF tq] map_of_define_property)
  qed
qed

lemma store2_eq_wf:
  assumes "key \<noteq> TARGET_KEY" and "\<not> isUndefinedOrNull v"
  shows "store2 key v scope t s =
     (result_of (updateKeyTarget key scope (Some t)
        (setCache scope ((getCache scope s)(key \<mapsto> String v)) s)),
      (if getCache scope s key = Some (String v) then [] else [StorageChange key scope]) @
      events_of (updateKeyTarget key scope (Some t)
        (setCache scope ((getCache scope s)(key \<mapsto> String v)) s)),
      state_of (updateKeyTarget key scope (Some t)
        (setCache scope ((getCache scope s)(key \<mapsto> String v)) s)))"
  using assms by (simp add: store2_def bind_eq doStore_eq)

lemma remove_eq_wf:
  assumes "key \<noteq> TARGET_KEY"
  shows "remove key scope s =
     (result_of (updateKeyTarget key scope None
        (setCache scope ((getCache scope s)(key := None)) s)),
      (if getCache scope s key = None then [] else [StorageChange key scope]) @
      events_of (updateKeyTarget key scope None
        (setCache scope ((getCache scope s)(key := None)) s)),
      state_of (updateKeyTarget key scope None
        (setCache scope ((getCache scope s)(key := None)) s)))"
  using assms by (simp add: remove_def bind_eq doRemove_eq)

lemma put_same: "getCache scope s key = Some x \<Longrightarrow>
  setCache scope ((getCache scope s)(key \<mapsto> x)) s = s"
  by (simp add: fun_upd_idem setCache_same)

lemma store2_first:
  assumes "well_formed scope s" and "key \<noteq> TARGET_KEY" and "\<not> isUndefinedOrNull v"
  shows "store2 key v scope target s =
      (Inr (),
       (if getCache scope s key = Some (String v) then [] else [StorageChange key scope]) @
         events_of (updateKeyTarget key scope (Some target)
           (setCache scope ((getCache scope s)(key \<mapsto> String v)) s)),
       state_of (updateKeyTarget key scope (Some target)
           (setCache scope ((getCache scope s)(key \<mapsto> String v)) s)))"
proof -
  have "well_formed scope (setCache scope ((getCache scope s)(key \<mapsto> String v)) s)"
    using assms(1,2) by (simp add: well_formed_put)
  from updateKeyTarget_returns[OF this] show ?thesis
    using store2_eq_wf[OF assms(2,3), of scope target s] by simp
qed

lemma store2_again:
  assumes "well_formed scope s" and "key \<noteq> TARGET_KEY" and "\<not> isUndefinedOrNull v"
  shows "store2 key v scope target (state_of (store2 key v scope target s)) =
         (Inr (), [], state_of (store2 key v scope target s))"
proof -
  let ?s1 = "setCache scope ((getCache scope s)(key \<mapsto> String v)) s"
  let ?u = "updateKeyTarget key scope (Some target) ?s1"
  have w1: "well_formed scope ?s1" using assms(1,2) by (simp add: well_formed_put)
  have s': "state_of (store2 key v scope target s) = state_of ?u"
    by (simp add: store2_first[OF assms])
  have stored: "getCache scope (state_of ?u) key = Some (String v)"
    using updateKeyTarget_frame[OF assms(2), of scope key scope "Some target" ?s1]
    by (simp add: getCache_setCache)
  show ?thesis
    unfolding s'
    using store2_eq_wf[OF assms(2,3), of scope target "state_of ?u"] stored
      updateKeyTarget_idem[OF w1, of key target]
    by (simp add: put_same)
qed

text \<open>
  C2 (as amended). In a state the service reaches through calls that keep off the reserved key
  \<open>TARGET_KEY\<close>, for a key other than \<open>TARGET_KEY\<close> and a value that is neither \<open>null\<close> nor
  \<open>undefined\<close>: \<open>store2\<close> returns normally and fires one \<open>StorageChange\<close> event for the key
  and partition when the text stored under the key differs from the text of the value, and
  none when it is the same; the same call made again fires no event at all and leaves the
  state as it is.
\<close>

theorem store2_twice:
  assumes "reachable {TARGET_KEY} s" and "key \<noteq> TARGET_KEY" and "\<not> isUndefinedOrNull v"
  shows "\<exists>evs s'. store2 key v scope target s = (Inr (), evs, s') \<and>
           count_list evs (StorageChange key scope) =
             (if getCache scope s key = Some (String v) then 0 else 1) \<and>
           store2 key v scope target s' = (Inr (), [], s')"
proof -
  let ?s1 = "setCache scope ((getCache scope s)(key \<mapsto> String v)) s"
  let ?u = "updateKeyTarget key scope (Some target) ?s1"
  have w: "well_formed scope s" by (rule reachable_wf[OF assms(1)])
  have w1: "well_formed scope ?s1" using w assms(2) by (simp add: well_formed_put)
  have cnt: "count_list (events_of ?u) (StorageChange key scope) = 0"
    using updateKeyTarget_events[OF w1, of key "Some target"] assms(2) by auto
  show ?thesis
    using store2_first[OF w assms(2,3), of target] cnt store2_again[OF w assms(2,3), of target]
    by simp
qed

theorem store2_twice_witness:
  "events_of (store2 ''fontSize'' (VNumber (Finite 14)) WORKSPACE USER initial) =
     [StorageChange ''fontSize'' WORKSPACE, StorageChange TARGET_KEY WORKSPACE,
      TargetChange WORKSPACE] \<and>
   events_of (store2 ''fontSize'' (VNumber (Finite 14)) WORKSPACE USER
     (state_of (store2 ''fontSize'' (VNumber (Finite 14)) WORKSPACE USER initial))) = []"
proof -
  have k: "''fontSize'' \<noteq> TARGET_KEY" by (simp add: TARGET_KEY_def)
  have v: "\<not> isUndefinedOrNull (VNumber (Finite 14))" by simp
  have e: "events_of (store2 ''fontSize'' (VNumber (Finite 14)) WORKSPACE USER initial) =
     [StorageChange ''fontSize'' WORKSPACE, StorageChange TARGET_KEY WORKSPACE,
      TargetChange WORKSPACE]"
    by code_simp
  from store2_twice[OF reachable_initial k v, of WORKSPACE USER] e
  show ?thesis by auto
qed

theorem store2_twice_counterexample:
  "events_of (store2 TARGET_KEY (VString ''x'') GLOBAL USER
     (state_of (store2 TARGET_KEY (VString ''x'') GLOBAL USER initial))) =
     [StorageChange TARGET_KEY GLOBAL, TargetChange GLOBAL,
      StorageChange TARGET_KEY GLOBAL, TargetChange GLOBAL] \<and>
   events_of (store2 ''a'' (VString ''x'') GLOBAL USER
     (state_of (store2 ''a'' (VString ''x'') GLOBAL USER initial))) @
   events_of (store2 ''a'' (VString ''x'') GLOBAL USER
     (state_of (store2 ''a'' (VString ''x'') GLOBAL USER
       (state_of (store2 ''a'' (VString ''x'') GLOBAL USER initial))))) = []"
  by code_simp

subsection \<open>The target-change signal\<close>

lemma target_number_inj: "target_number a = target_number b \<longleftrightarrow> a = b"
  by (cases a; cases b) simp_all

text \<open>
  C6 (as amended). In a state the service reaches through calls that keep off the reserved key
  \<open>TARGET_KEY\<close>, with \<open>us\<close> and \<open>ms\<close> the keys that \<open>keys\<close> returns for the partition:
  \<open>store2\<close> of a value that is neither \<open>null\<close> nor \<open>undefined\<close>, under a key other than
  \<open>TARGET_KEY\<close> and \<open>__proto__\<close> that is not among the keys of the given target, fires
  exactly one \<open>TargetChange\<close> event, for that partition; \<open>remove\<close> of a key that is among
  \<open>us\<close> or \<open>ms\<close> fires exactly one, for that partition; and \<open>store2\<close> made a second time
  with the same key, value and target fires no event.
\<close>

theorem target_change_signal:
  assumes "reachable {TARGET_KEY} s"
    and "keys scope USER s = (Inr us, [], s)" and "keys scope MACHINE s = (Inr ms, [], s)"
  shows "(key \<noteq> TARGET_KEY \<and> key \<noteq> ''__proto__'' \<and> \<not> isUndefinedOrNull v \<and>
          key \<notin> set (case target of USER \<Rightarrow> us | MACHINE \<Rightarrow> ms) \<longrightarrow>
            (\<forall>sc. count_list (events_of (store2 key v scope target s)) (TargetChange sc) =
                    (if sc = scope then 1 else 0))) \<and>
         (key \<in> set us \<union> set ms \<longrightarrow>
            (\<forall>sc. count_list (events_of (remove key scope s)) (TargetChange sc) =
                    (if sc = scope then 1 else 0))) \<and>
         (key \<noteq> TARGET_KEY \<and> \<not> isUndefinedOrNull v \<longrightarrow>
            events_of (store2 key v scope target
              (state_of (store2 key v scope target s))) = [])"
proof -
  have w: "well_formed scope s" by (rule reachable_wf[OF assms(1)])
  have tm: "target_map (recorded scope s)" by (rule recorded_wf(1)[OF w])
  have us: "us = collect_keys USER (recorded scope s)"
    and ms: "ms = collect_keys MACHINE (recorded scope s)"
    using assms(2,3) by (simp_all add: keys_wf[OF w])
  have mem: "key \<in> set (case t of USER \<Rightarrow> us | MACHINE \<Rightarrow> ms) \<longleftrightarrow>
      map_of (recorded scope s) key = Some (JNumber (target_number t))" for t
    using in_collect_keys[OF tm, of key t] by (cases t) (simp_all add: us ms)
  have a: "count_list (events_of (store2 key v scope target s)) (TargetChange sc) =
      (if sc = scope then 1 else 0)"
    if k: "key \<noteq> TARGET_KEY" "key \<noteq> ''__proto__''" and v: "\<not> isUndefinedOrNull v"
      and n: "key \<notin> set (case target of USER \<Rightarrow> us | MACHINE \<Rightarrow> ms)" for sc
  proof -
    let ?s1 = "setCache scope ((getCache scope s)(key \<mapsto> String v)) s"
    have w1: "well_formed scope ?s1" and r1: "recorded scope ?s1 = recorded scope s"
      using w k(1) by (simp_all add: well_formed_put)
    have "map_of (recorded scope ?s1) key \<noteq> Some (JNumber (target_number target))"
      using n mem[of target] r1 by simp
    then have "events_of (updateKeyTarget key scope (Some target) ?s1) =
        [StorageChange TARGET_KEY scope, TargetChange scope]"
      using k(2) by (simp add: updateKeyTarget_add_wf[OF w1])
    then show ?thesis
      unfolding store2_eq_wf[OF k(1) v] by simp
  qed
  have b: "count_list (events_of (remove key scope s)) (TargetChange sc) =
      (if sc = scope then 1 else 0)"
    if m: "key \<in> set us \<union> set ms" for sc
  proof -
    from m have some: "map_of (recorded scope s) key \<noteq> None"
      using mem[of USER] mem[of MACHINE] by auto
    show ?thesis
    proof (cases "key = TARGET_KEY")
      case True
      let ?s1 = "setCache scope ((getCache scope s)(TARGET_KEY := None)) s"
      have present: "getCache scope s TARGET_KEY \<noteq> None"
        using some by (auto simp: recorded_def split: option.splits)
      have n1: "getCache scope ?s1 TARGET_KEY = None" by (simp add: getCache_setCache)
      then have w1: "well_formed scope ?s1" and r1: "recorded scope ?s1 = []"
        by (simp_all add: well_formed_def recorded_def)
      have "events_of (remove key scope s) = [StorageChange TARGET_KEY scope, TargetChange scope]"
        using True present
        by (simp add: remove_def bind_eq doRemove_eq updateKeyTarget_remove_wf[OF w1] r1)
      then show ?thesis by simp
    next
      case k: False
      let ?s1 = "setCache scope ((getCache scope s)(key := None)) s"
      have w1: "well_formed scope ?s1" and r1: "recorded scope ?s1 = recorded scope s"
        using w k by (simp_all add: well_formed_put)
      have "events_of (updateKeyTarget key scope None ?s1) =
          [StorageChange TARGET_KEY scope, TargetChange scope]"
        using some r1 by (simp add: updateKeyTarget_remove_wf[OF w1])
      then show ?thesis
        unfolding remove_eq_wf[OF k] by simp
    qed
  qed
  have c: "events_of (store2 key v scope target (state_of (store2 key v scope target s))) = []"
    if "key \<noteq> TARGET_KEY" "\<not> isUndefinedOrNull v"
    using store2_again[OF w that, of target] by simp
  show ?thesis using a b c by blast
qed

theorem target_change_signal_witness:
  "count_list (events_of (store2 ''flag'' (VBoolean True) GLOBAL MACHINE initial))
     (TargetChange GLOBAL) = 1 \<and>
   count_list (events_of (remove ''flag'' GLOBAL
     (state_of (store2 ''flag'' (VBoolean True) GLOBAL MACHINE initial))))
     (TargetChange GLOBAL) = 1 \<and>
   events_of (store2 ''flag'' (VBoolean True) GLOBAL MACHINE
     (state_of (store2 ''flag'' (VBoolean True) GLOBAL MACHINE initial))) = []"
proof -
  let ?s = "state_of (store2 ''flag'' (VBoolean True) GLOBAL MACHINE initial)"
  have k: "''flag'' \<noteq> TARGET_KEY \<and> ''flag'' \<noteq> ''__proto__'' \<and>
      \<not> isUndefinedOrNull (VBoolean True)"
    by (simp add: TARGET_KEY_def)
  have r: "reachable {TARGET_KEY} ?s"
    using reachable_store2[OF reachable_initial, of "''flag''" "{TARGET_KEY}"] k by simp
  have r0: "recorded GLOBAL initial = []"
    by (simp add: recorded_def initial_def getCache_def)
  have u0: "keys GLOBAL USER initial = (Inr [], [], initial)"
    and m0: "keys GLOBAL MACHINE initial = (Inr [], [], initial)"
    by (simp_all add: keys_wf[OF initial_wf] r0)
  have u1: "keys GLOBAL USER ?s = (Inr (collect_keys USER (recorded GLOBAL ?s)), [], ?s)"
    and m1: "keys GLOBAL MACHINE ?s = (Inr (collect_keys MACHINE (recorded GLOBAL ?s)), [], ?s)"
    by (simp_all add: keys_wf[OF reachable_wf[OF r]])
  have in1: "''flag'' \<in> set (collect_keys MACHINE (recorded GLOBAL ?s))"
    by code_simp
  from target_change_signal[OF reachable_initial u0 m0, of "''flag''" "VBoolean True" MACHINE]
    target_change_signal[OF r u1 m1, of "''flag''" "VBoolean True" MACHINE] k in1
  show ?thesis by simp
qed

theorem target_change_signal_counterexample:
  "count_list (events_of (store2 TARGET_KEY (VString ''x'') GLOBAL USER initial))
     (TargetChange GLOBAL) = 2 \<and>
   result_of (keys GLOBAL USER (state_of (store2 ''a'' (VString ''x'') GLOBAL USER initial)))
     = Inr [''a''] \<and>
   count_list (events_of (store2 ''__proto__'' (VString ''x'') GLOBAL USER
       (state_of (store2 ''a'' (VString ''x'') GLOBAL USER initial))))
     (TargetChange GLOBAL) = 0"
  by code_simp

subsection \<open>Keys by target\<close>

lemma updateKeyTarget_recorded_other:
  assumes "well_formed scope' s" and "k' \<noteq> key \<or> scope' \<noteq> scope"
  shows "map_of (recorded scope (state_of (updateKeyTarget k' scope' target s))) key =
         map_of (recorded scope s) key"
proof (cases "scope' = scope")
  case False
  then show ?thesis
    by (cases target)
       (simp_all add: updateKeyTarget_add_wf[OF assms(1)] updateKeyTarget_remove_wf[OF assms(1)]
         well_formed_with_targets_other(2))
next
  case True
  with assms(2) have ne: "k' \<noteq> key" by simp
  have w: "well_formed scope s" using assms(1) True by simp
  have tm: "target_map (recorded scope s)" by (rule recorded_wf(1)[OF w])
  show ?thesis
  proof (cases target)
    case None
    then show ?thesis
      using ne target_map_delete_own[OF tm, of k']
      by (simp add: True updateKeyTarget_remove_wf[OF w] well_formed_with_targets(2)
          map_of_delete_own)
  next
    case (Some t)
    then show ?thesis
      using ne target_map_define_property[OF tm, of k' t]
      by (simp add: True updateKeyTarget_add_wf[OF w] well_formed_with_targets(2)
          map_of_define_property)
  qed
qed

lemma remove_recorded_other:
  assumes "\<And>sc. well_formed sc s" and "k' \<noteq> TARGET_KEY" and "k' \<noteq> key \<or> scope' \<noteq> scope"
  shows "map_of (recorded scope (state_of (remove k' scope' s))) key = map_of (recorded scope s) key"
proof -
  let ?s1 = "setCache scope' ((getCache scope' s)(k' := None)) s"
  have w1: "well_formed scope' ?s1" and r1: "recorded scope ?s1 = recorded scope s"
    using assms(1)[of scope'] assms(2) by (simp_all add: well_formed_put)
  show ?thesis
    unfolding remove_eq_wf[OF assms(2)]
    using updateKeyTarget_recorded_other[OF w1 assms(3), of None] r1 by simp
qed

lemma store2_recorded_other:
  assumes "\<And>sc. well_formed sc s" and "k' \<noteq> TARGET_KEY" and "k' \<noteq> key \<or> scope' \<noteq> scope"
  shows "map_of (recorded scope (state_of (store2 k' v scope' target s))) key =
         map_of (recorded scope s) key"
proof (cases "isUndefinedOrNull v")
  case True
  then show ?thesis using remove_recorded_other[OF assms] by (simp add: store2_def)
next
  case False
  let ?s1 = "setCache scope' ((getCache scope' s)(k' \<mapsto> String v)) s"
  have w1: "well_formed scope' ?s1" and r1: "recorded scope ?s1 = recorded scope s"
    using assms(1)[of scope'] assms(2) by (simp_all add: well_formed_put)
  show ?thesis
    unfolding store2_eq_wf[OF assms(2) False]
    using updateKeyTarget_recorded_other[OF w1 assms(3), of "Some target"] r1 by simp
qed

lemma store2_recorded_same:
  assumes "well_formed scope s" and "key \<noteq> TARGET_KEY" and "key \<noteq> ''__proto__''"
    and "\<not> isUndefinedOrNull v"
  shows "map_of (recorded scope (state_of (store2 key v scope T s))) key =
         Some (JNumber (target_number T))"
proof -
  have w1: "well_formed scope (setCache scope ((getCache scope s)(key \<mapsto> String v)) s)"
    using assms(1,2) by (simp add: well_formed_put)
  show ?thesis
    unfolding store2_eq_wf[OF assms(2,4)]
    using updateKeyTarget_recorded[OF w1 assms(3), of T] by simp
qed

lemma perform_preserves:
  assumes "\<And>sc. well_formed sc s" and "keeps_target key scope T c" and "key \<noteq> ''__proto__''"
    and "map_of (recorded scope s) key = Some (JNumber (target_number T))"
  shows "well_formed sc (state_of (perform c s))"
    and "map_of (recorded scope (state_of (perform c s))) key = Some (JNumber (target_number T))"
proof -
  show "well_formed sc (state_of (perform c s))"
    using assms(2) store2_wf[OF assms(1)] remove_wf[OF assms(1)]
    by (cases c) (simp_all add: store_def)
  show "map_of (recorded scope (state_of (perform c s))) key = Some (JNumber (target_number T))"
  proof (cases c)
    case (Store2 k v sc' t)
    show ?thesis
    proof (cases "k = key \<and> sc' = scope")
      case True
      then show ?thesis
        using assms(2,3) store2_recorded_same[OF assms(1)[of scope], of key v T]
        by (simp add: Store2)
    next
      case False
      then have "k \<noteq> key \<or> sc' \<noteq> scope" by blast
      from store2_recorded_other[OF assms(1) _ this, of v t] show ?thesis
        using assms(2,4) by (simp add: Store2)
    qed
  next
    case (Store k v sc')
    show ?thesis
    proof (cases "k = key \<and> sc' = scope")
      case True
      then show ?thesis
        using assms(2,3) store2_recorded_same[OF assms(1)[of scope], of key v T]
        by (simp add: Store store_def)
    next
      case False
      then have "k \<noteq> key \<or> sc' \<noteq> scope" by blast
      from store2_recorded_other[OF assms(1) _ this, of v MACHINE] show ?thesis
        using assms(2,4) by (simp add: Store store_def)
    qed
  next
    case (Remove k sc')
    then have "k \<noteq> key \<or> sc' \<noteq> scope" using assms(2) by auto
    from remove_recorded_other[OF assms(1) _ this] show ?thesis
      using assms(2,4) by (simp add: Remove)
  qed
qed

lemma perform_all_preserves:
  assumes "\<And>sc. well_formed sc s" and "\<forall>c \<in> set later. keeps_target key scope T c"
    and "key \<noteq> ''__proto__''"
    and "map_of (recorded scope s) key = Some (JNumber (target_number T))"
  shows "well_formed sc (perform_all later s) \<and>
         map_of (recorded scope (perform_all later s)) key = Some (JNumber (target_number T))"
  using assms(1,2,4)
proof (induction later arbitrary: s)
  case Nil
  then show ?case by simp
next
  case (Cons c later)
  have c: "keeps_target key scope T c" using Cons.prems(2) by simp
  have w: "\<And>sc. well_formed sc (state_of (perform c s))"
    using perform_preserves(1)[OF Cons.prems(1) c assms(3) Cons.prems(3)] by simp
  have m: "map_of (recorded scope (state_of (perform c s))) key = Some (JNumber (target_number T))"
    by (rule perform_preserves(2)[OF Cons.prems(1) c assms(3) Cons.prems(3)])
  show ?case
    using Cons.IH[OF w _ m] Cons.prems(2) by simp
qed

text \<open>
  C4 (as amended). In a state the service reaches through calls that keep off the reserved key
  \<open>TARGET_KEY\<close>, let \<open>store2\<close> write a value that is neither \<open>null\<close> nor \<open>undefined\<close> under a
  key other than \<open>TARGET_KEY\<close> and \<open>__proto__\<close> with target \<open>T\<close>, and let any calls of \<open>store2\<close>,
  \<open>store\<close> and \<open>remove\<close> follow that keep off \<open>TARGET_KEY\<close> and neither remove this key from
  this partition nor write it there with another target. Then \<open>keys\<close> of the partition returns
  normally for both targets, contains the key for \<open>T\<close> and does not contain it for the other
  target.
\<close>

theorem keys_follow_target:
  assumes "reachable {TARGET_KEY} s"
    and "key \<noteq> TARGET_KEY" and "key \<noteq> ''__proto__''" and "\<not> isUndefinedOrNull v"
    and "\<forall>c \<in> set later. keeps_target key scope T c"
    and "s' = perform_all later (state_of (store2 key v scope T s))"
  shows "\<exists>ks. keys scope T' s' = (Inr ks, [], s') \<and> (key \<in> set ks \<longleftrightarrow> T' = T)"
proof -
  let ?s0 = "state_of (store2 key v scope T s)"
  have w: "\<And>sc. well_formed sc s" by (rule reachable_wf[OF assms(1)])
  have w0: "\<And>sc. well_formed sc ?s0" by (rule store2_wf[OF w assms(2)])
  have "map_of (recorded scope ?s0) key = Some (JNumber (target_number T))"
    by (rule store2_recorded_same[OF w assms(2,3,4)])
  from perform_all_preserves[OF w0 assms(5,3) this]
  have w': "well_formed scope s'"
    and m: "map_of (recorded scope s') key = Some (JNumber (target_number T))"
    by (simp_all add: assms(6))
  have "key \<in> set (collect_keys T' (recorded scope s')) \<longleftrightarrow> T' = T"
    using in_collect_keys[OF recorded_wf(1)[OF w'], of key T'] m
    by (auto simp: target_number_inj)
  then show ?thesis by (simp add: keys_wf[OF w'])
qed

theorem keys_follow_target_witness:
  "result_of (keys WORKSPACE USER
     (perform_all [Store ''flag'' (VBoolean True) WORKSPACE, Remove ''flag'' WORKSPACE,
                   Store2 ''fontSize'' (VString ''large'') WORKSPACE USER]
       (state_of (store2 ''fontSize'' (VNumber (Finite 14)) WORKSPACE USER initial))))
   = Inr [''fontSize''] \<and>
   result_of (keys WORKSPACE MACHINE
     (perform_all [Store ''flag'' (VBoolean True) WORKSPACE, Remove ''flag'' WORKSPACE,
                   Store2 ''fontSize'' (VString ''large'') WORKSPACE USER]
       (state_of (store2 ''fontSize'' (VNumber (Finite 14)) WORKSPACE USER initial))))
   = Inr []"
proof -
  let ?later = "[Store ''flag'' (VBoolean True) WORKSPACE, Remove ''flag'' WORKSPACE,
                   Store2 ''fontSize'' (VString ''large'') WORKSPACE USER]"
  let ?s' = "perform_all ?later
       (state_of (store2 ''fontSize'' (VNumber (Finite 14)) WORKSPACE USER initial))"
  have k: "''fontSize'' \<noteq> TARGET_KEY" "''fontSize'' \<noteq> ''__proto__''"
    "\<not> isUndefinedOrNull (VNumber (Finite 14))"
    by (simp_all add: TARGET_KEY_def)
  have l: "\<forall>c \<in> set ?later. keeps_target ''fontSize'' WORKSPACE USER c"
    by (simp add: TARGET_KEY_def)
  have e: "result_of (keys WORKSPACE USER ?s') = Inr [''fontSize'']"
    "result_of (keys WORKSPACE MACHINE ?s') = Inr []"
    by code_simp+
  from keys_follow_target[OF reachable_initial k l refl, of USER]
    keys_follow_target[OF reachable_initial k l refl, of MACHINE] e
  show ?thesis by simp
qed

theorem keys_follow_target_counterexample:
  "result_of (keys GLOBAL USER
     (state_of (store2 ''__proto__'' (VString ''x'') GLOBAL USER
       (state_of (store2 ''a'' (VString ''x'') GLOBAL USER initial))))) = Inr [''a''] \<and>
   result_of (store2 TARGET_KEY (VString ''null'') GLOBAL USER initial) = Inl TypeError \<and>
   result_of (keys GLOBAL USER
     (state_of (store2 TARGET_KEY (VString ''null'') GLOBAL USER initial))) = Inl TypeError"
  by code_simp


subsection \<open>Flushing\<close>







end
